theory Spec2Isabelle
  imports Complex_Main "HOL-Library.Word"
begin

unbundle bit_operations_syntax

section \<open>Machine types\<close>

type_synonym byte = "8 word"
type_synonym SymbolType = "16 word"
type_synonym FrequencyType = "16 word"
type_synonym IntType = "32 word"

section \<open>Double precision arithmetic\<close>

text \<open>
  A finite \<open>double\<close> is modelled as the real number it denotes. Every arithmetic
  operation of the source computes the exact real result and rounds it to the nearest
  binary64 value, ties to even (53 significant bits, gradual underflow below
  \<open>2 powi -1022\<close>). Infinities and NaN are not modelled: they need a magnitude of
  \<open>2 powi 1024\<close>, and no computation of this program comes near it.
\<close>

type_synonym double = real

definition rne :: "real \<Rightarrow> int" where
  "rne y = (let f = \<lfloor>y\<rfloor>; r = y - of_int f
            in if r < 1 / 2 then f
               else if 1 / 2 < r then f + 1
               else if even f then f else f + 1)"

definition ulp_exp :: "real \<Rightarrow> int" where
  "ulp_exp x = max \<lfloor>log 2 \<bar>x\<bar>\<rfloor> (- 1022) - 52"

definition rnd :: "real \<Rightarrow> double" where
  "rnd x = of_int (rne (x / 2 powi ulp_exp x)) * 2 powi ulp_exp x"

definition fadd :: "double \<Rightarrow> double \<Rightarrow> double" where
  "fadd a b = rnd (a + b)"

definition fsub :: "double \<Rightarrow> double \<Rightarrow> double" where
  "fsub a b = rnd (a - b)"

definition fmul :: "double \<Rightarrow> double \<Rightarrow> double" where
  "fmul a b = rnd (a * b)"

definition fdiv :: "double \<Rightarrow> double \<Rightarrow> double" where
  "fdiv a b = rnd (a / b)"

definition fsqrt :: "double \<Rightarrow> double" where
  "fsqrt a = rnd (sqrt a)"

text \<open>The integer part of a double, rounding towards zero, and \<open>std::trunc\<close>.\<close>

definition trunc_int :: "double \<Rightarrow> int" where
  "trunc_int x = (if 0 \<le> x then \<lfloor>x\<rfloor> else \<lceil>x\<rceil>)"

definition std_trunc :: "double \<Rightarrow> double" where
  "std_trunc x = of_int (trunc_int x)"

text \<open>
  \<open>static_cast<uint16_t>(double)\<close> and \<open>static_cast<int16_t>(double)\<close> drop the
  fraction. When the integer part does not fit the target type the C++ result is
  undefined; the model then takes the value modulo \<open>2 ^ 16\<close>.
\<close>

definition double_to_u16 :: "double \<Rightarrow> 16 word" where
  "double_to_u16 x = word_of_int (trunc_int x)"

definition double_to_i16 :: "double \<Rightarrow> 16 word" where
  "double_to_i16 x = word_of_int (trunc_int x)"

section \<open>Bit streams (bitstream.hpp)\<close>

record OBitStream =
  outputStream :: "byte list"
  outputBuffer :: byte
  outputBufferPos :: nat

definition OBitStream_init :: "byte list \<Rightarrow> OBitStream" where
  "OBitStream_init out = \<lparr>outputStream = out, outputBuffer = 0, outputBufferPos = 0\<rparr>"

definition OBitStream_flush :: "OBitStream \<Rightarrow> OBitStream" where
  "OBitStream_flush s =
     (if 0 < outputBufferPos s
      then s\<lparr>outputStream := outputStream s @ [push_bit (8 - outputBufferPos s) (outputBuffer s)],
             outputBuffer := 0, outputBufferPos := 0\<rparr>
      else s)"

definition put :: "bool \<Rightarrow> OBitStream \<Rightarrow> OBitStream" where
  "put b s =
     (let s1 = s\<lparr>outputBuffer := push_bit 1 (outputBuffer s) OR (if b then 1 else 0),
                 outputBufferPos := outputBufferPos s + 1\<rparr>
      in if outputBufferPos s1 = 8 then OBitStream_flush s1 else s1)"

record IBitStream =
  inputStream :: "byte list"
  inputBuffer :: byte
  inputBufferPos :: nat

definition IBitStream_init :: "byte list \<Rightarrow> IBitStream" where
  "IBitStream_init inp = \<lparr>inputStream = inp, inputBuffer = 0, inputBufferPos = 8\<rparr>"

definition fillInputBuffer :: "IBitStream \<Rightarrow> bool \<times> IBitStream" where
  "fillInputBuffer s =
     (case inputStream s of
        [] \<Rightarrow> (False, s\<lparr>inputBuffer := 0\<rparr>)
      | c # cs \<Rightarrow> (True, s\<lparr>inputStream := cs, inputBuffer := c, inputBufferPos := 0\<rparr>))"

text \<open>
  \<open>get(bit)\<close> takes the variable \<open>bit\<close> by reference: on success it is overwritten,
  on failure it keeps the content it had. The model takes that content as the argument
  \<open>b\<close> and returns the success flag, the new content and the stream.
\<close>

definition get :: "bool \<Rightarrow> IBitStream \<Rightarrow> bool \<times> bool \<times> IBitStream" where
  "get b s =
     (let (ok, s1) = (if inputBufferPos s = 8 then fillInputBuffer s else (True, s))
      in if \<not> ok then (False, b, s1)
         else (True, bit (inputBuffer s1) (7 - inputBufferPos s1),
               s1\<lparr>inputBufferPos := inputBufferPos s1 + 1\<rparr>))"

section \<open>Symbol quantisation (neuralink.hpp)\<close>

definition neuralink_16bit_to_10bit :: "16 word \<Rightarrow> SymbolType" where
  "neuralink_16bit_to_10bit x = signed_drop_bit 6 x + 512"

definition neuralink_10bit_to_16bit :: "SymbolType \<Rightarrow> 16 word" where
  "neuralink_10bit_to_16bit u =
     (let temp = fsub (fmul (fadd (of_int (uint u - 512)) (1 / 2))
                            (fadd 64 (fdiv 1009 16384)))
                      (1 / 2)
      in double_to_i16 (std_trunc temp))"

section \<open>WAV container (wav.hpp, neuralink.hpp)\<close>

text \<open>
  An input stream is the list of bytes not yet read. \<open>istream::read\<close> of \<open>n\<close> bytes
  stores the bytes that are there; with fewer than \<open>n\<close> left it stores those, consumes
  them and fails, and every later read fails too, as it does on the empty list.
\<close>

datatype error = Invalid_WAV_header_size | Unsupported_WAV_format

text \<open>\<open>read_wav_header\<close> resizes the vector to 44 zero bytes, reads into it and ignores
  the stream state; it returns the header and the rest of the stream.\<close>

definition read_wav_header :: "byte list \<Rightarrow> byte list \<times> byte list" where
  "read_wav_header inp =
     (take 44 inp @ replicate (44 - length inp) 0, drop 44 inp)"

definition write_wav_header :: "byte list \<Rightarrow> byte list \<Rightarrow> error + byte list" where
  "write_wav_header out header =
     (if length header \<noteq> 44 then Inl Invalid_WAV_header_size
      else Inr (out @ header))"

text \<open>A little-endian 16-bit field of the header.\<close>

definition u16_at :: "byte list \<Rightarrow> nat \<Rightarrow> 16 word" where
  "u16_at header i = word_cat (header ! (i + 1)) (header ! i)"

definition neuralink_check_wav_header :: "byte list \<Rightarrow> error + unit" where
  "neuralink_check_wav_header header =
     (if length header \<noteq> 44 then Inl Invalid_WAV_header_size
      else let numChannels = u16_at header 22; bitsPerSample = u16_at header 34
           in if numChannels \<noteq> 1 \<or> bitsPerSample \<noteq> 16 then Inl Unsupported_WAV_format
              else Inr ())"

text \<open>Reading and writing one little-endian 16-bit sample.\<close>

fun neuralink_read_symbol_from_stream :: "byte list \<Rightarrow> (SymbolType \<times> byte list) option" where
  "neuralink_read_symbol_from_stream (lo # hi # rest) =
     Some (neuralink_16bit_to_10bit (word_cat hi lo), rest)"
| "neuralink_read_symbol_from_stream _ = None"

definition neuralink_write_symbol_to_stream :: "byte list \<Rightarrow> SymbolType \<Rightarrow> byte list" where
  "neuralink_write_symbol_to_stream out symbol =
     (let raw_sample = neuralink_10bit_to_16bit symbol
      in out @ [ucast raw_sample, ucast (drop_bit 8 raw_sample)])"

section \<open>Probability model (neuralink.hpp)\<close>

definition NUM_SYMBOLS :: nat where "NUM_SYMBOLS = 1025"
definition NUM_DIST :: nat where "NUM_DIST = 4"
definition MAX_FREQUENCY :: "16 word" where "MAX_FREQUENCY = 0x7FFF"
definition MAX_CODE :: "32 word" where "MAX_CODE = 0x1FFFF"
definition Int25 :: "32 word" where "Int25 = 0x8000"
definition Int50 :: "32 word" where "Int50 = 0x10000"
definition Int75 :: "32 word" where "Int75 = 0x18000"

text \<open>The constant members of \<open>Model\<close>. A decimal literal is the nearest double.\<close>

definition ma :: double where "ma = rnd (20 / 100)"
definition ltv :: double where "ltv = rnd (75 / 10)"
definition alpha :: double where "alpha = rnd (725 / 1000)"
definition beta :: double where "beta = rnd (175 / 1000)"
definition outlier_level :: double where "outlier_level = rnd (84 / 10)"
definition mrr :: double where "mrr = rnd (5 / 100)"
definition std_levels :: "double list" where "std_levels = [16, 18, 20, 22]"
definition cdf_scale :: "double list" where
  "cdf_scale = [rnd (5145 / 1000), rnd (6035 / 1000), rnd (8547 / 1000), rnd (2005 / 100)]"
definition cdf_w :: "double list" where
  "cdf_w = [rnd (25 / 100000), rnd (25 / 100000), rnd (25 / 100000), rnd (25 / 100000)]"
definition cdf_z :: "double list" where
  "cdf_z = [rnd (1063 / 10), rnd (8284 / 100), rnd (6287 / 100), rnd (6186 / 100)]"

text \<open>
  \<open>std::erf\<close> belongs to the C library, not to this program: the functions that call it
  take it as the parameter \<open>erf\<close>.
\<close>

definition normal_cdf :: "(double \<Rightarrow> double) \<Rightarrow> double \<Rightarrow> double \<Rightarrow> double \<Rightarrow> double" where
  "normal_cdf erf x loc scale =
     (let standardized_x = fdiv (fsub x loc) scale
      in fmul (1 / 2) (fadd 1 (erf (fdiv standardized_x (fsqrt 2)))))"

definition cdf :: "(double \<Rightarrow> double) \<Rightarrow> double \<Rightarrow> double \<Rightarrow> double \<Rightarrow> double \<Rightarrow> double \<Rightarrow> double" where
  "cdf erf x loc scale w z =
     (let p = fadd (fmul (fsub (fsub 1 w) z) (normal_cdf erf x loc scale)) w
      in if loc \<le> x then fadd p z else p)"

record Model =
  ccft :: "FrequencyType list list"
  active_dist :: "16 word"
  active_symbol_shift :: "16 word"
  mean :: double
  stdev :: double
  omega :: double
  outlier_counter :: "16 word"

text \<open>The constructor: one row of the table for each distribution.\<close>

definition ccft_entry :: "(double \<Rightarrow> double) \<Rightarrow> nat \<Rightarrow> nat \<Rightarrow> FrequencyType" where
  "ccft_entry erf i j =
     (let max_p = cdf erf (real NUM_SYMBOLS) 511 (cdf_scale ! i) (cdf_w ! i)
                      (fdiv (cdf_z ! i) (real NUM_SYMBOLS));
          p = cdf erf (real j) 511 (cdf_scale ! i) (cdf_w ! i)
                  (fdiv (cdf_z ! i) (real NUM_SYMBOLS))
      in double_to_u16 (fmul (fdiv p max_p) (real (unat MAX_FREQUENCY - NUM_SYMBOLS)))
         + of_nat j)"

definition ccft_row :: "(double \<Rightarrow> double) \<Rightarrow> nat \<Rightarrow> FrequencyType list" where
  "ccft_row erf i = 0 # map (ccft_entry erf i) [1..<NUM_SYMBOLS] @ [MAX_FREQUENCY]"

definition Model_init :: "(double \<Rightarrow> double) \<Rightarrow> Model" where
  "Model_init erf =
     \<lparr>ccft = map (ccft_row erf) [0..<NUM_DIST],
      active_dist = 0, active_symbol_shift = 0,
      mean = 511, stdev = 8,
      omega = fdiv ltv (fsub (fsub 1 alpha) beta),
      outlier_counter = 0\<rparr>"

definition symbol_low_high :: "Model \<Rightarrow> SymbolType \<Rightarrow> FrequencyType \<times> FrequencyType" where
  "symbol_low_high m symbol =
     (let loc = (ucast symbol + of_nat NUM_SYMBOLS + scast (active_symbol_shift m) :: 32 word)
                  mod of_nat NUM_SYMBOLS
      in (ccft m ! unat (active_dist m) ! unat loc,
          ccft m ! unat (active_dist m) ! unat (loc + 1)))"

text \<open>
  \<open>std::upper_bound\<close> and \<open>std::lower_bound\<close> on a sorted range: the index of the first
  element greater than, respectively not less than, the value (the length when there is
  none).
\<close>

definition upper_bound :: "'a::linorder list \<Rightarrow> 'a \<Rightarrow> nat" where
  "upper_bound xs v = length (takeWhile (\<lambda>x. \<not> v < x) xs)"

definition lower_bound :: "'a::linorder list \<Rightarrow> 'a \<Rightarrow> nat" where
  "lower_bound xs v = length (takeWhile (\<lambda>x. x < v) xs)"

definition frequency_symbol :: "Model \<Rightarrow> FrequencyType \<Rightarrow> SymbolType" where
  "frequency_symbol m freq =
     (let it = upper_bound (ccft m ! unat (active_dist m)) freq;
          loc = (if it = 0 then 0 else of_nat it - 1 :: 16 word)
      in ucast ((ucast loc + of_nat NUM_SYMBOLS - scast (active_symbol_shift m) :: 32 word)
                mod of_nat NUM_SYMBOLS))"

definition update_state :: "Model \<Rightarrow> SymbolType \<Rightarrow> Model" where
  "update_state m symbol =
     (let s = real (unat symbol);
          ds = fsub s (mean m);
          oc1 = (if fmul outlier_level (stdev m) < \<bar>ds\<bar> then outlier_counter m + 1 else 0);
          oc2 = (if 3 < oc1 then 0 else oc1);
          m1 = m\<lparr>outlier_counter := oc2\<rparr>
      in if oc2 = 0 then
           let mean' = fadd (fmul ma (mean m)) (fmul (fsub 1 ma) s);
               stdev' = fsqrt (fadd (fadd (omega m) (fmul (fmul alpha (stdev m)) (stdev m)))
                                    (fmul (fmul beta ds) ds));
               dist = min (of_nat (lower_bound std_levels stdev')) (of_nat (NUM_DIST - 1));
               shift = 511 - double_to_u16 (fadd mean' (fmul (fsub s mean') mrr))
           in m1\<lparr>mean := mean', stdev := stdev', active_dist := dist,
                  active_symbol_shift := shift\<rparr>
         else m1)"

section \<open>Arithmetic coder (arithmetic_coding.hpp)\<close>

definition forward_range :: "32 word \<Rightarrow> 32 word \<Rightarrow> 32 word \<Rightarrow> 32 word \<Rightarrow> 32 word \<times> 32 word" where
  "forward_range low high symbol_low symbol_high =
     (let range = high - low + 1;
          high' = low + range * symbol_high div 0x7FFF - 1;
          low' = low + range * symbol_low div 0x7FFF
      in (low', high'))"

text \<open>The division of \<open>backward_value\<close> traps when \<open>range\<close> is 0; then there is no value.\<close>

definition backward_value :: "32 word \<Rightarrow> 32 word \<Rightarrow> 32 word \<Rightarrow> 32 word option" where
  "backward_value v low high =
     (let range = high - low + 1
      in if range = 0 then None else Some (((v - low + 1) * 0x7FFF - 1) div range))"

text \<open>The counters of type \<open>size_t\<close> are natural numbers: they count bits and symbols
  of one stream and stay far below \<open>2 ^ 64\<close>.\<close>

record ArithmeticEncoder =
  e_model :: Model
  bits_written :: nat
  symbols_written :: nat
  e_symbol_low :: FrequencyType
  e_symbol_high :: FrequencyType
  e_low :: IntType
  e_high :: IntType
  e_pending_bits :: nat

definition ArithmeticEncoder_init :: "(double \<Rightarrow> double) \<Rightarrow> ArithmeticEncoder" where
  "ArithmeticEncoder_init erf =
     \<lparr>e_model = Model_init erf, bits_written = 0, symbols_written = 0,
      e_symbol_low = 0, e_symbol_high = 0,
      e_low = 0, e_high = MAX_CODE, e_pending_bits = 0\<rparr>"

definition write_bits :: "bool \<Rightarrow> ArithmeticEncoder \<Rightarrow> OBitStream \<Rightarrow> ArithmeticEncoder \<times> OBitStream" where
  "write_bits b e bit_stream =
     (e\<lparr>bits_written := bits_written e + (1 + e_pending_bits e), e_pending_bits := 0\<rparr>,
      (put (\<not> b) ^^ e_pending_bits e) (put b bit_stream))"

text \<open>The shift that ends every round of the encoder's loop.\<close>

definition encode_shift :: "ArithmeticEncoder \<Rightarrow> ArithmeticEncoder" where
  "encode_shift e =
     e\<lparr>e_low := push_bit 1 (e_low e) AND MAX_CODE,
       e_high := (push_bit 1 (e_high e) OR 1) AND MAX_CODE\<rparr>"

partial_function (option) encode_loop ::
    "ArithmeticEncoder \<Rightarrow> OBitStream \<Rightarrow> (ArithmeticEncoder \<times> OBitStream) option" where
  "encode_loop e bit_stream =
     (if e_high e < Int50 then
        (case write_bits False e bit_stream of (e1, bs1) \<Rightarrow> encode_loop (encode_shift e1) bs1)
      else if Int50 \<le> e_low e then
        (case write_bits True e bit_stream of (e1, bs1) \<Rightarrow> encode_loop (encode_shift e1) bs1)
      else if Int25 \<le> e_low e \<and> e_high e < Int75 then
        encode_loop
          (encode_shift (e\<lparr>e_pending_bits := e_pending_bits e + 1,
                            e_low := e_low e - Int25, e_high := e_high e - Int25\<rparr>))
          bit_stream
      else Some (e, bit_stream))"

definition encode :: "SymbolType \<Rightarrow> ArithmeticEncoder \<Rightarrow> OBitStream \<Rightarrow> (ArithmeticEncoder \<times> OBitStream) option" where
  "encode symbol e bit_stream =
     (let (sl, sh) = symbol_low_high (e_model e) symbol;
          (low', high') = forward_range (e_low e) (e_high e) (ucast sl) (ucast sh)
      in encode_loop
           (e\<lparr>symbols_written := symbols_written e + 1,
              e_symbol_low := sl, e_symbol_high := sh, e_low := low', e_high := high'\<rparr>)
           bit_stream)"

definition flush :: "ArithmeticEncoder \<Rightarrow> OBitStream \<Rightarrow> ArithmeticEncoder \<times> OBitStream" where
  "flush e bit_stream =
     (let e1 = e\<lparr>e_pending_bits := e_pending_bits e + 1\<rparr>
      in if e_low e1 < Int25 then write_bits False e1 bit_stream
         else write_bits True e1 bit_stream)"

record ArithmeticDecoder =
  bits_read :: nat
  symbols_read :: nat
  d_model :: Model
  d_symbol_low :: FrequencyType
  d_symbol_high :: FrequencyType
  d_low :: IntType
  d_high :: IntType
  d_value :: IntType
  d_pending_bits :: nat

definition ArithmeticDecoder_init :: "(double \<Rightarrow> double) \<Rightarrow> ArithmeticDecoder" where
  "ArithmeticDecoder_init erf =
     \<lparr>bits_read = 0, symbols_read = 0, d_model = Model_init erf,
      d_symbol_low = 0, d_symbol_high = 0,
      d_low = 0, d_high = MAX_CODE, d_value = 0, d_pending_bits = 0\<rparr>"

text \<open>
  The end of every round of the decoder's loop: shift, read a bit into the local
  variable \<open>b\<close> (whose content \<open>b\<close> stays when the stream is exhausted, since the
  result of \<open>get\<close> is ignored) and shift it into \<open>value\<close>.
\<close>

definition decode_shift :: "ArithmeticDecoder \<Rightarrow> bool \<Rightarrow> IBitStream \<Rightarrow> ArithmeticDecoder \<times> bool \<times> IBitStream" where
  "decode_shift d b bit_stream =
     (case get b bit_stream of (ok, b1, bs1) \<Rightarrow>
        (d\<lparr>d_low := push_bit 1 (d_low d),
           d_high := push_bit 1 (d_high d) OR 1,
           d_value := push_bit 1 (d_value d) OR (if b1 then 1 else 0)\<rparr>, b1, bs1))"

partial_function (option) decode_loop ::
    "ArithmeticDecoder \<Rightarrow> bool \<Rightarrow> IBitStream \<Rightarrow> (ArithmeticDecoder \<times> bool \<times> IBitStream) option" where
  "decode_loop d b bit_stream =
     (if d_high d < Int50 then
        (case decode_shift d b bit_stream of (d1, b1, bs1) \<Rightarrow> decode_loop d1 b1 bs1)
      else if Int50 \<le> d_low d then
        (case decode_shift (d\<lparr>d_value := d_value d - Int50, d_low := d_low d - Int50,
                                d_high := d_high d - Int50\<rparr>) b bit_stream
         of (d1, b1, bs1) \<Rightarrow> decode_loop d1 b1 bs1)
      else if Int25 \<le> d_low d \<and> d_high d < Int75 then
        (case decode_shift (d\<lparr>d_value := d_value d - Int25, d_low := d_low d - Int25,
                                d_high := d_high d - Int25\<rparr>) b bit_stream
         of (d1, b1, bs1) \<Rightarrow> decode_loop d1 b1 bs1)
      else Some (d, b, bit_stream))"

text \<open>
  \<open>decode\<close> and \<open>init\<close> declare \<open>bool b\<close> without a value. The argument \<open>ub\<close> is
  the content that the variable happens to have. The result \<open>None\<close> of \<open>decode\<close> stands
  for a call that returns no symbol: the loop does not end, or the division has trapped.
\<close>

definition decode :: "bool \<Rightarrow> ArithmeticDecoder \<Rightarrow> IBitStream \<Rightarrow> (SymbolType \<times> ArithmeticDecoder \<times> IBitStream) option" where
  "decode ub d bit_stream =
     (case backward_value (d_value d) (d_low d) (d_high d) of
        None \<Rightarrow> None
      | Some scaled_value \<Rightarrow>
         (let symbol = frequency_symbol (d_model d) (ucast scaled_value);
              (sl, sh) = symbol_low_high (d_model d) symbol;
              (low', high') = forward_range (d_low d) (d_high d) (ucast sl) (ucast sh)
          in case decode_loop (d\<lparr>d_symbol_low := sl, d_symbol_high := sh,
                                  d_low := low', d_high := high'\<rparr>) ub bit_stream of
               None \<Rightarrow> None
             | Some (d1, b1, bs1) \<Rightarrow> Some (symbol, d1, bs1)))"

fun init_loop :: "nat \<Rightarrow> IntType \<Rightarrow> bool \<Rightarrow> IBitStream \<Rightarrow> IntType \<times> bool \<times> IBitStream" where
  "init_loop 0 v b bit_stream = (v, b, bit_stream)"
| "init_loop (Suc n) v b bit_stream =
     (case get b bit_stream of (ok, b1, bs1) \<Rightarrow>
        init_loop n (push_bit 1 v OR (if b1 then 1 else 0)) b1 bs1)"

definition init :: "bool \<Rightarrow> ArithmeticDecoder \<Rightarrow> IBitStream \<Rightarrow> ArithmeticDecoder \<times> IBitStream" where
  "init ub d bit_stream =
     (case init_loop 17 0 ub bit_stream of (v, b, bs1) \<Rightarrow> (d\<lparr>d_value := v\<rparr>, bs1))"

section \<open>Stream framing (encode.cpp, decode.cpp)\<close>

text \<open>The loop of \<open>encodeStream\<close> over the samples of the input.\<close>

function encode_samples :: "byte list \<Rightarrow> ArithmeticEncoder \<Rightarrow> OBitStream \<Rightarrow> (ArithmeticEncoder \<times> OBitStream) option" where
  "encode_samples inp encoder outputBitStream =
     (case neuralink_read_symbol_from_stream inp of
        None \<Rightarrow> Some (encoder, outputBitStream)
      | Some (symbol, rest) \<Rightarrow>
          (case encode symbol encoder outputBitStream of
             None \<Rightarrow> None
           | Some (e1, bs1) \<Rightarrow>
               encode_samples rest (e1\<lparr>e_model := update_state (e_model e1) symbol\<rparr>) bs1))"
  by pat_completeness auto
termination
  by (relation "measure (\<lambda>(inp, encoder, outputBitStream). length inp)")
     (auto elim: neuralink_read_symbol_from_stream.elims)

text \<open>
  The coder of \<open>encodeStream\<close> after the stop symbol, before the flush. The result
  \<open>None\<close> stands for a loop that does not return.
\<close>

definition encode_symbols :: "(double \<Rightarrow> double) \<Rightarrow> byte list \<Rightarrow> byte list \<Rightarrow> (ArithmeticEncoder \<times> OBitStream) option" where
  "encode_symbols erf payload out =
     (case encode_samples payload (ArithmeticEncoder_init erf) (OBitStream_init out) of
        None \<Rightarrow> None
      | Some (e1, bs1) \<Rightarrow> encode (of_nat (NUM_SYMBOLS - 1)) e1 bs1)"

definition encodeStream :: "(double \<Rightarrow> double) \<Rightarrow> byte list \<Rightarrow> (error + byte list) option" where
  "encodeStream erf inp =
     (case read_wav_header inp of (header, payload) \<Rightarrow>
        (case neuralink_check_wav_header header of
           Inl err \<Rightarrow> Some (Inl err)
         | Inr _ \<Rightarrow>
            (case write_wav_header [] header of
               Inl err \<Rightarrow> Some (Inl err)
             | Inr out \<Rightarrow>
                (case encode_symbols erf payload out of
                   None \<Rightarrow> None
                 | Some (e1, bs1) \<Rightarrow>
                     (case flush e1 bs1 of (e2, bs2) \<Rightarrow>
                        Some (Inr (outputStream (OBitStream_flush bs2))))))))"

text \<open>
  The loop of \<open>decodeStream\<close>. The sequence \<open>ub\<close> gives the content of the
  uninitialised \<open>b\<close> in each call of \<open>decode\<close>, counted by \<open>k\<close>.
\<close>

partial_function (option) decode_symbols ::
    "(nat \<Rightarrow> bool) \<Rightarrow> nat \<Rightarrow> ArithmeticDecoder \<Rightarrow> IBitStream \<Rightarrow> byte list \<Rightarrow> byte list option" where
  "decode_symbols ub k decoder inputBitStream out =
     (case decode (ub k) decoder inputBitStream of
        None \<Rightarrow> None
      | Some (symbol, d1, bs1) \<Rightarrow>
          (let d2 = d1\<lparr>d_model := update_state (d_model d1) symbol\<rparr>
           in if symbol = of_nat (NUM_SYMBOLS - 1) then Some out
              else decode_symbols ub (k + 1) d2 bs1
                     (neuralink_write_symbol_to_stream out symbol)))"

definition decodeStream :: "(double \<Rightarrow> double) \<Rightarrow> (nat \<Rightarrow> bool) \<Rightarrow> byte list \<Rightarrow> (error + byte list) option" where
  "decodeStream erf ub inp =
     (case read_wav_header inp of (header, payload) \<Rightarrow>
        (case neuralink_check_wav_header header of
           Inl err \<Rightarrow> Some (Inl err)
         | Inr _ \<Rightarrow>
            (case write_wav_header [] header of
               Inl err \<Rightarrow> Some (Inl err)
             | Inr out \<Rightarrow>
                (case init (ub 0) (ArithmeticDecoder_init erf) (IBitStream_init payload) of
                   (d0, bs0) \<Rightarrow>
                     map_option Inr (decode_symbols ub 1 d0 bs0 out)))))"

section \<open>Auxiliary notions for the verification\<close>

text \<open>The bits of a byte, most significant first, and the bits that a bit sink holds:
  those of the bytes written, then the low \<open>outputBufferPos\<close> bits of the buffer.\<close>


definition byte_bits :: "byte \<Rightarrow> bool list" where
  "byte_bits c = map (\<lambda>i. bit c (7 - i)) [0..<8]"

definition buffer_bits :: "byte \<Rightarrow> nat \<Rightarrow> bool list" where
  "buffer_bits c n = map (\<lambda>i. bit c (n - 1 - i)) [0..<n]"

definition obs_bits :: "OBitStream \<Rightarrow> bool list" where
  "obs_bits s = concat (map byte_bits (outputStream s)) @ buffer_bits (outputBuffer s) (outputBufferPos s)"


text \<open>
  A concrete function in the place of \<open>std::erf\<close> for the closed instances below. Like
  the error function it is odd, increasing and lies between \<open>-1\<close> and \<open>1\<close>.
\<close>

definition erf_tanh :: "double \<Rightarrow> double" where
  "erf_tanh x = rnd (tanh (6 / 5 * x))"

text \<open>
  The argument at which \<open>normal_cdf\<close> calls \<open>std::erf\<close> when the constructor evaluates
  \<open>cdf(j, 511, cdf_scale[i], ...)\<close>: the constructor calls the library only at
  \<open>erf_arg i j\<close> for \<open>i < 4\<close> and \<open>1 \<le> j \<le> 1025\<close>.
\<close>

definition erf_arg :: "nat \<Rightarrow> nat \<Rightarrow> double" where
  "erf_arg i j = fdiv (fdiv (fsub (real j) 511) (cdf_scale ! i)) (fsqrt 2)"

text \<open>
  What the verification assumes of the library's error function, and only at the
  arguments at which the constructor calls it: along each row its values do not decrease
  with \<open>j\<close>, and they are not below \<open>-1\<close>. Nothing is assumed at any other argument.
\<close>

definition erf_ok :: "(double \<Rightarrow> double) \<Rightarrow> bool" where
  "erf_ok erf \<longleftrightarrow>
     (\<forall>i < 4. \<forall>j k. 1 \<le> j \<and> j \<le> k \<and> k \<le> 1025 \<longrightarrow> erf (erf_arg i j) \<le> erf (erf_arg i k)) \<and>
     (\<forall>i < 4. \<forall>j. 1 \<le> j \<and> j \<le> 1025 \<longrightarrow> - 1 \<le> erf (erf_arg i j))"

text \<open>The invariant of one row of the table: 1026 strictly increasing frequency points
  from 0 to \<open>MAX_FREQUENCY\<close>.\<close>

definition table_ok :: "FrequencyType list \<Rightarrow> bool" where
  "table_ok row \<longleftrightarrow> length row = 1026 \<and> row ! 0 = 0 \<and> row ! 1025 = 0x7FFF \<and>
     (\<forall>j < 1025. row ! j < row ! (j + 1))"

text \<open>The integer that the constructor adds to \<open>j\<close> in entry \<open>j\<close> of row \<open>i\<close>.\<close>

definition ccft_scaled :: "(double \<Rightarrow> double) \<Rightarrow> nat \<Rightarrow> nat \<Rightarrow> int" where
  "ccft_scaled erf i j =
     trunc_int (fmul (fdiv (cdf erf (real j) 511 (cdf_scale ! i) (cdf_w ! i)
                                 (fdiv (cdf_z ! i) (real NUM_SYMBOLS)))
                           (cdf erf (real NUM_SYMBOLS) 511 (cdf_scale ! i) (cdf_w ! i)
                                 (fdiv (cdf_z ! i) (real NUM_SYMBOLS))))
                     (real (unat MAX_FREQUENCY - NUM_SYMBOLS)))"

text \<open>
  The renormalisation loop that encoder and decoder share, on natural numbers: the rules
  it applies, in order, and the interval at which it stops. It is only unfolded on an
  interval \<open>l \<le> h \<le> MAX_CODE\<close>, which every round doubles in width.
\<close>

datatype rule = E1 | E2 | E3

function renorm :: "nat \<Rightarrow> nat \<Rightarrow> rule list \<times> nat \<times> nat" where
  "renorm l h =
     (if l \<le> h \<and> h \<le> 131071 then
        (if h < 65536 then
           (case renorm (2 * l) (2 * h + 1) of (rs, r) \<Rightarrow> (E1 # rs, r))
         else if 65536 \<le> l then
           (case renorm (2 * (l - 65536)) (2 * (h - 65536) + 1) of (rs, r) \<Rightarrow> (E2 # rs, r))
         else if 32768 \<le> l \<and> h < 98304 then
           (case renorm (2 * (l - 32768)) (2 * (h - 32768) + 1) of (rs, r) \<Rightarrow> (E3 # rs, r))
         else ([], l, h))
      else ([], l, h))"
  by pat_completeness auto
termination
  by (relation "measure (\<lambda>(l, h). 131072 - (h - l))") auto

text \<open>The bits that the encoder emits for a sequence of rules, starting with \<open>p\<close> pending
  bits, and the pending bits that remain.\<close>

fun emitted :: "nat \<Rightarrow> rule list \<Rightarrow> bool list" where
  "emitted p [] = []"
| "emitted p (E1 # rs) = False # replicate p True @ emitted 0 rs"
| "emitted p (E2 # rs) = True # replicate p False @ emitted 0 rs"
| "emitted p (E3 # rs) = emitted (p + 1) rs"

fun pending_after :: "nat \<Rightarrow> rule list \<Rightarrow> nat" where
  "pending_after p [] = p"
| "pending_after p (E1 # rs) = pending_after 0 rs"
| "pending_after p (E2 # rs) = pending_after 0 rs"
| "pending_after p (E3 # rs) = pending_after (p + 1) rs"

text \<open>The invariant of the coder between symbols.\<close>

definition coder_inv :: "32 word \<Rightarrow> 32 word \<Rightarrow> bool" where
  "coder_inv low high \<longleftrightarrow> 0 \<le> low \<and> low < high \<and> high \<le> MAX_CODE \<and> Int25 \<le> high - low"

text \<open>What the encoder's loop does when the shared loop applies the rules \<open>rs\<close> and stops
  at \<open>[l', h']\<close>.\<close>

definition encode_loop_to :: "ArithmeticEncoder \<Rightarrow> OBitStream \<Rightarrow> rule list \<Rightarrow> nat \<Rightarrow> nat \<Rightarrow> bool" where
  "encode_loop_to e bs rs l' h' \<longleftrightarrow>
     (\<exists>e' bs'. encode_loop e bs = Some (e', bs')
        \<and> unat (e_low e') = l' \<and> unat (e_high e') = h'
        \<and> e_pending_bits e' = pending_after (e_pending_bits e) rs
        \<and> e_model e' = e_model e
        \<and> bits_written e' = bits_written e + length (emitted (e_pending_bits e) rs)
        \<and> obs_bits bs' = obs_bits bs @ emitted (e_pending_bits e) rs \<and> outputBufferPos bs' < 8)"

text \<open>The narrowing of the interval by \<open>forward_range\<close>, on natural numbers.\<close>

definition narrow :: "nat \<Rightarrow> nat \<Rightarrow> nat \<Rightarrow> nat \<Rightarrow> nat \<times> nat" where
  "narrow l h a b = (l + (h - l + 1) * a div 32767, l + (h - l + 1) * b div 32767 - 1)"

text \<open>What the coder needs of the model: four good rows and a valid row index.\<close>

definition model_ok :: "Model \<Rightarrow> bool" where
  "model_ok m \<longleftrightarrow> length (ccft m) = 4 \<and> (\<forall>i < 4. table_ok (ccft m ! i)) \<and> active_dist m \<le> 3"

text \<open>One step of the coder on natural numbers: narrow to the symbol's interval
  \<open>[a, b)\<close>, then renormalise.\<close>

definition coder_step :: "nat \<Rightarrow> nat \<Rightarrow> nat \<Rightarrow> nat \<Rightarrow> rule list \<times> nat \<times> nat" where
  "coder_step l h a b = (case narrow l h a b of (l1, h1) \<Rightarrow> renorm l1 h1)"

text \<open>The encoder on a list of symbols, as the loop of \<open>encodeStream\<close> runs it.\<close>

fun encode_run :: "SymbolType list \<Rightarrow> ArithmeticEncoder \<Rightarrow> OBitStream \<Rightarrow> (ArithmeticEncoder \<times> OBitStream) option" where
  "encode_run [] e bs = Some (e, bs)"
| "encode_run (s # ss) e bs =
     (case encode s e bs of
        None \<Rightarrow> None
      | Some (e1, bs1) \<Rightarrow> encode_run ss (e1\<lparr>e_model := update_state (e_model e1) s\<rparr>) bs1)"


text \<open>The symbols that the loop of \<open>encodeStream\<close> reads from the payload.\<close>

fun symbols_of :: "byte list \<Rightarrow> SymbolType list" where
  "symbols_of (lo # hi # rest) = neuralink_16bit_to_10bit (word_cat hi lo) # symbols_of rest"
| "symbols_of _ = []"





text \<open>
  The encoder run with the model prescribed from outside: each symbol of the list is
  encoded with the model paired with it, and no model update takes place in between.
\<close>

fun encode_each :: "(Model \<times> SymbolType) list \<Rightarrow> ArithmeticEncoder \<Rightarrow> OBitStream \<Rightarrow> (ArithmeticEncoder \<times> OBitStream) option" where
  "encode_each [] e bs = Some (e, bs)"
| "encode_each ((m, s) # xs) e bs =
     (case encode s (e\<lparr>e_model := m\<rparr>) bs of
        None \<Rightarrow> None
      | Some (e1, bs1) \<Rightarrow> encode_each xs e1 bs1)"

text \<open>The models in which the symbols of a list are met when each symbol is followed by
  its update: the \<open>k\<close>-th one is the first model updated on the \<open>k\<close> symbols before.\<close>

fun models_before :: "Model \<Rightarrow> SymbolType list \<Rightarrow> Model list" where
  "models_before m [] = []"
| "models_before m (s # ss) = m # models_before (update_state m s) ss"

text \<open>An input of 36 bytes, shorter than a header: zeros, except for the value 1 at the
  bytes 22 and 23 and the value 16 at the bytes 34 and 35.\<close>

definition short_input :: "byte list" where
  "short_input = replicate 22 0 @ [1, 0] @ replicate 10 0 @ [16, 0]"

text \<open>The scaled frequency of \<open>backward_value\<close>, on natural numbers.\<close>

definition scaled :: "nat \<Rightarrow> nat \<Rightarrow> nat \<Rightarrow> nat" where
  "scaled v l h = ((v - l + 1) * 32767 - 1) div (h - l + 1)"

text \<open>The row position of a symbol and the symbol of a row position under the model's
  shift, as integers modulo \<open>NUM_SYMBOLS\<close>.\<close>

definition symbol_loc :: "Model \<Rightarrow> SymbolType \<Rightarrow> nat" where
  "symbol_loc m s = nat ((uint s + 1025 + sint (active_symbol_shift m)) mod 1025)"

definition loc_symbol :: "Model \<Rightarrow> nat \<Rightarrow> SymbolType" where
  "loc_symbol m k = word_of_int ((int k + 1025 - sint (active_symbol_shift m)) mod 1025)"


section \<open>Rounding to double\<close>


lemma rne_of_int [simp]: "rne (of_int n) = n"
  by (simp add: rne_def)

lemma rne_floor_cases: "rne y = \<lfloor>y\<rfloor> \<or> rne y = \<lfloor>y\<rfloor> + 1"
  by (simp add: rne_def Let_def)

lemma rne_lower: "\<lfloor>y\<rfloor> \<le> rne y"
  using rne_floor_cases[of y] by auto

lemma rne_upper: "rne y \<le> \<lfloor>y\<rfloor> + 1"
  using rne_floor_cases[of y] by auto

lemma rne_mono: 
  assumes "x \<le> y" shows "rne x \<le> rne y"
proof (cases "\<lfloor>x\<rfloor> = \<lfloor>y\<rfloor>")
  case True
  then show ?thesis using assms by (auto simp: rne_def Let_def)
next
  case False
  then have "\<lfloor>x\<rfloor> + 1 \<le> \<lfloor>y\<rfloor>" using floor_mono[OF assms] by linarith
  then show ?thesis using rne_upper[of x] rne_lower[of y] by linarith
qed

lemma rne_minus: "rne (- y) = - rne y"
proof (cases "y \<in> \<int>")
  case True
  then obtain n where "y = of_int n" by (auto elim: Ints_cases)
  then show ?thesis by (simp flip: of_int_minus)
next
  case False
  have fr: "y \<noteq> of_int \<lfloor>y\<rfloor>" using False
    by (metis Ints_of_int)
  then have f: "\<lfloor>- y\<rfloor> = - \<lfloor>y\<rfloor> - 1"
    by (simp add: floor_minus ceiling_altdef)
  show ?thesis
    using fr by (auto simp: rne_def Let_def f)
qed

lemma rne_0 [simp]: "rne 0 = 0"
  using rne_of_int[of 0] by simp

lemma rne_nonneg: "0 \<le> y \<Longrightarrow> 0 \<le> rne y"
  using rne_mono[of 0 y] by simp

lemma rne_le_of_int: "y \<le> of_int n \<Longrightarrow> rne y \<le> n"
  using rne_mono[of y "of_int n"] by simp

lemma rne_ge_of_int: "of_int n \<le> y \<Longrightarrow> n \<le> rne y"
  using rne_mono[of "of_int n" y] by simp

lemma floor_log2_lower: "x \<noteq> 0 \<Longrightarrow> 2 powi \<lfloor>log 2 \<bar>x\<bar>\<rfloor> \<le> \<bar>x\<bar>"
  using floor_log_eq_powr_iff[of "\<bar>x\<bar>" 2 "\<lfloor>log 2 \<bar>x\<bar>\<rfloor>"]
  by (simp add: powr_real_of_int')

lemma floor_log2_upper: "x \<noteq> 0 \<Longrightarrow> \<bar>x\<bar> < 2 powi (\<lfloor>log 2 \<bar>x\<bar>\<rfloor> + 1)"
  using floor_log_eq_powr_iff[of "\<bar>x\<bar>" 2 "\<lfloor>log 2 \<bar>x\<bar>\<rfloor>"]
        powr_real_of_int'[of 2 "\<lfloor>log 2 \<bar>x\<bar>\<rfloor> + 1"]
  by simp

lemma floor_log2_eqI: "2 powi k \<le> \<bar>x\<bar> \<Longrightarrow> \<bar>x\<bar> < 2 powi (k + 1) \<Longrightarrow> \<lfloor>log 2 \<bar>x\<bar>\<rfloor> = k"
proof -
  assume a: "2 powi k \<le> \<bar>x\<bar>" and b: "\<bar>x\<bar> < 2 powi (k + 1)"
  have "0 < \<bar>x\<bar>" using a zero_less_power_int[of "2::real" k] by linarith
  then show ?thesis
    using a b floor_log_eq_powr_iff[of "\<bar>x\<bar>" 2 k] powr_real_of_int'[of 2 "k + 1"] powr_real_of_int'[of 2 k]
    by simp
qed

lemma ulp_exp_minus [simp]: "ulp_exp (- x) = ulp_exp x"
  by (simp add: ulp_exp_def)

lemma ulp_exp_ge: "- 1074 \<le> ulp_exp x"
  by (simp add: ulp_exp_def)

lemma abs_less_ulp: "\<bar>x\<bar> < 2 powi (ulp_exp x + 53)"
proof (cases "x = 0")
  case True then show ?thesis by simp
next
  case False
  have "\<lfloor>log 2 \<bar>x\<bar>\<rfloor> + 1 \<le> ulp_exp x + 53" by (simp add: ulp_exp_def)
  then have "(2::real) powi (\<lfloor>log 2 \<bar>x\<bar>\<rfloor> + 1) \<le> 2 powi (ulp_exp x + 53)"
    by (intro power_int_increasing) auto
  then show ?thesis using floor_log2_upper[OF False] by linarith
qed

lemma rnd_minus: "rnd (- x) = - rnd x"
  by (simp add: rnd_def rne_minus)

lemma rnd_0 [simp]: "rnd 0 = 0"
  by (simp add: rnd_def)

lemma rnd_nonneg: "0 \<le> x \<Longrightarrow> 0 \<le> rnd x"
  by (simp add: rnd_def rne_nonneg)

lemma rnd_nonpos: "x \<le> 0 \<Longrightarrow> rnd x \<le> 0"
  using rnd_nonneg[of "- x"] by (simp add: rnd_minus)

lemma scaled_less: "\<bar>x\<bar> / 2 powi ulp_exp x < 2 ^ 53"
proof -
  have "\<bar>x\<bar> < 2 powi ulp_exp x * 2 ^ 53"
    using abs_less_ulp[of x] by (simp add: power_int_add)
  then show ?thesis by (simp add: field_simps)
qed

lemma rnd_upper_pos:
  assumes "0 \<le> x" shows "rnd x \<le> 2 powi (ulp_exp x + 53)"
proof -
  have "x / 2 powi ulp_exp x \<le> of_int (2 ^ 53)"
    using scaled_less[of x] assms by simp
  then have "rne (x / 2 powi ulp_exp x) \<le> 2 ^ 53" by (rule rne_le_of_int)
  then have "real_of_int (rne (x / 2 powi ulp_exp x)) \<le> 2 ^ 53" 
    by (metis of_int_le_iff of_int_numeral of_int_power)
  then have "rnd x \<le> 2 ^ 53 * 2 powi ulp_exp x"
    unfolding rnd_def by (intro mult_right_mono) auto
  then show ?thesis by (simp add: power_int_add mult.commute)
qed

lemma rnd_lower_normal:
  assumes "0 < x" "- 1022 \<le> \<lfloor>log 2 \<bar>x\<bar>\<rfloor>" shows "2 powi (ulp_exp x + 52) \<le> rnd x"
proof -
  have e: "ulp_exp x + 52 = \<lfloor>log 2 \<bar>x\<bar>\<rfloor>" using assms by (simp add: ulp_exp_def)
  have "2 powi (ulp_exp x + 52) \<le> x" using floor_log2_lower[of x] assms e by simp
  then have "2 powi ulp_exp x * 2 ^ 52 \<le> x" by (simp add: power_int_add)
  then have "of_int (2 ^ 52) \<le> x / 2 powi ulp_exp x" by (simp add: field_simps)
  then have "2 ^ 52 \<le> rne (x / 2 powi ulp_exp x)" by (rule rne_ge_of_int)
  then have "2 ^ 52 \<le> real_of_int (rne (x / 2 powi ulp_exp x))"
    by (metis of_int_le_iff of_int_numeral of_int_power)
  then have "2 ^ 52 * 2 powi ulp_exp x \<le> rnd x"
    unfolding rnd_def by (intro mult_right_mono) auto
  then show ?thesis by (simp add: power_int_add mult.commute)
qed

lemma ulp_exp_mono: assumes "0 < x" "x \<le> y" shows "ulp_exp x \<le> ulp_exp y"
proof -
  have "log 2 \<bar>x\<bar> \<le> log 2 \<bar>y\<bar>" using assms by simp
  then have "\<lfloor>log 2 \<bar>x\<bar>\<rfloor> \<le> \<lfloor>log 2 \<bar>y\<bar>\<rfloor>" by (rule floor_mono)
  then show ?thesis by (simp add: ulp_exp_def)
qed

lemma rnd_mono_pos:
  assumes "0 < x" "x \<le> y" shows "rnd x \<le> rnd y"
proof (cases "ulp_exp x = ulp_exp y")
  case True
  have "x / 2 powi ulp_exp y \<le> y / 2 powi ulp_exp y"
    using assms by (simp add: divide_right_mono)
  then have "rne (x / 2 powi ulp_exp y) \<le> rne (y / 2 powi ulp_exp y)" by (rule rne_mono)
  then show ?thesis unfolding rnd_def True by (intro mult_right_mono) auto
next
  case False
  then have lt: "ulp_exp x + 1 \<le> ulp_exp y" using ulp_exp_mono[OF assms] by linarith
  then have n: "- 1022 \<le> \<lfloor>log 2 \<bar>y\<bar>\<rfloor>" unfolding ulp_exp_def by linarith
  have "rnd x \<le> 2 powi (ulp_exp x + 53)" using assms by (intro rnd_upper_pos) simp
  also have "\<dots> \<le> 2 powi (ulp_exp y + 52)" using lt by (intro power_int_increasing) auto
  also have "\<dots> \<le> rnd y" using assms n by (intro rnd_lower_normal) auto
  finally show ?thesis .
qed

lemma rnd_mono: assumes "x \<le> y" shows "rnd x \<le> rnd y"
proof -
  consider "0 < x" | "x \<le> 0" "0 \<le> y" | "y < 0" by linarith
  then show ?thesis
  proof cases
    case 1 then show ?thesis using assms by (rule rnd_mono_pos)
  next
    case 2 then show ?thesis using rnd_nonneg[of y] rnd_nonpos[of x] by linarith
  next
    case 3
    then have "rnd (- y) \<le> rnd (- x)" using assms by (intro rnd_mono_pos) auto
    then show ?thesis by (simp add: rnd_minus)
  qed
qed

lemma rnd_exact:
  assumes m: "\<bar>m\<bar> < 2 ^ 53" and e: "- 1074 \<le> e"
  shows "rnd (of_int m * 2 powi e) = of_int m * 2 powi e"
proof (cases "m = 0")
  case True then show ?thesis by simp
next
  case False
  define x :: real where "x = of_int m * 2 powi e"
  have x0: "x \<noteq> 0" using False by (simp add: x_def)
  have "\<bar>real_of_int m\<bar> < 2 ^ 53" using m
    by (metis of_int_abs of_int_less_iff of_int_numeral of_int_power)
  then have "\<bar>x\<bar> < 2 ^ 53 * 2 powi e"
    by (simp add: x_def abs_mult)
  then have ub: "\<bar>x\<bar> < 2 powi (e + 53)" by (simp add: power_int_add mult.commute)
  have "\<lfloor>log 2 \<bar>x\<bar>\<rfloor> < e + 53"
  proof (rule ccontr)
    assume "\<not> \<lfloor>log 2 \<bar>x\<bar>\<rfloor> < e + 53"
    then have "(2::real) powi (e + 53) \<le> 2 powi \<lfloor>log 2 \<bar>x\<bar>\<rfloor>"
      by (intro power_int_increasing) auto
    then show False using floor_log2_lower[OF x0] ub by linarith
  qed
  then have le: "ulp_exp x \<le> e" using e unfolding ulp_exp_def by linarith
  define k where "k = nat (e - ulp_exp x)"
  have ek: "e = ulp_exp x + int k" using le by (simp add: k_def)
  have pe: "(2::real) powi e = 2 powi ulp_exp x * 2 ^ k"
    by (subst ek) (simp add: power_int_add)
  have xe: "x = of_int (m * 2 ^ k) * 2 powi ulp_exp x"
  proof -
    have "x = of_int m * 2 powi e" by (simp only: x_def)
    also have "\<dots> = of_int m * (2 powi ulp_exp x * 2 ^ k)" by (simp only: pe)
    also have "\<dots> = of_int (m * 2 ^ k) * 2 powi ulp_exp x" by simp
    finally show ?thesis .
  qed
  have "x / 2 powi ulp_exp x = of_int (m * 2 ^ k)"
    by (subst (1) xe) simp
  then have "rne (x / 2 powi ulp_exp x) = m * 2 ^ k" by (simp only: rne_of_int)
  then have "rnd x = of_int (m * 2 ^ k) * 2 powi ulp_exp x" by (simp add: rnd_def)
  then have "rnd x = x" using xe by simp
  then show ?thesis by (simp add: x_def)
qed

lemma rnd_of_int: "\<bar>m\<bar> < 2 ^ 53 \<Longrightarrow> rnd (of_int m) = of_int m"
  using rnd_exact[of m 0] by simp

lemma rnd_dyadic: "\<bar>m\<bar> < 2 ^ 53 \<Longrightarrow> k \<le> 1074 \<Longrightarrow> rnd (of_int m / 2 ^ k) = of_int m / 2 ^ k"
  using rnd_exact[of m "- int k"] by (simp add: power_int_minus field_simps)

lemma rnd_idem [simp]: "rnd (rnd x) = rnd x"
proof -
  define k where "k = rne (x / 2 powi ulp_exp x)"
  have r: "rnd x = of_int k * 2 powi ulp_exp x" by (simp add: rnd_def k_def)
  have "\<bar>x / 2 powi ulp_exp x\<bar> \<le> of_int (2 ^ 53)"
    using scaled_less[of x] by (simp add: abs_divide)
  then have "- of_int (2 ^ 53) \<le> x / 2 powi ulp_exp x" "x / 2 powi ulp_exp x \<le> of_int (2 ^ 53)"
    by linarith+
  then have "- (2 ^ 53) \<le> k" "k \<le> 2 ^ 53"
    unfolding k_def using rne_ge_of_int[of "- (2 ^ 53)"] rne_le_of_int[of _ "2 ^ 53"] by simp_all
  then consider "\<bar>k\<bar> < 2 ^ 53" | "k = 2 ^ 53" | "k = - (2 ^ 53)" by linarith
  then show ?thesis
  proof cases
    case 1 then show ?thesis unfolding r using ulp_exp_ge[of x] by (intro rnd_exact) auto
  next
    case 2
    have "rnd x = of_int 1 * 2 powi (ulp_exp x + 53)" unfolding r 2 by (simp add: power_int_add)
    moreover have "rnd (of_int 1 * 2 powi (ulp_exp x + 53)) = of_int 1 * 2 powi (ulp_exp x + 53)"
      using ulp_exp_ge[of x] by (intro rnd_exact) auto
    ultimately show ?thesis by simp
  next
    case 3
    have "rnd x = of_int (- 1) * 2 powi (ulp_exp x + 53)" unfolding r 3 by (simp add: power_int_add)
    moreover have "rnd (of_int (- 1) * 2 powi (ulp_exp x + 53)) = of_int (- 1) * 2 powi (ulp_exp x + 53)"
      using ulp_exp_ge[of x] by (intro rnd_exact) auto
    ultimately show ?thesis by simp
  qed
qed

lemma rnd_le_int: "x \<le> of_int n \<Longrightarrow> \<bar>n\<bar> < 2 ^ 53 \<Longrightarrow> rnd x \<le> of_int n"
  using rnd_mono[of x "of_int n"] by (simp add: rnd_of_int)

lemma rnd_ge_int: "of_int n \<le> x \<Longrightarrow> \<bar>n\<bar> < 2 ^ 53 \<Longrightarrow> of_int n \<le> rnd x"
  using rnd_mono[of "of_int n" x] by (simp add: rnd_of_int)

lemma rnd_le_dyadic: "x \<le> of_int n / 2 ^ k \<Longrightarrow> \<bar>n\<bar> < 2 ^ 53 \<Longrightarrow> k \<le> 1074 \<Longrightarrow> rnd x \<le> of_int n / 2 ^ k"
  using rnd_mono[of x "of_int n / 2 ^ k"] by (simp add: rnd_dyadic)

lemma rnd_ge_dyadic: "of_int n / 2 ^ k \<le> x \<Longrightarrow> \<bar>n\<bar> < 2 ^ 53 \<Longrightarrow> k \<le> 1074 \<Longrightarrow> of_int n / 2 ^ k \<le> rnd x"
  using rnd_mono[of "of_int n / 2 ^ k" x] by (simp add: rnd_dyadic)


section \<open>Bit sink\<close>

lemma bit_shift_in:
  fixes c :: "'a::len word"
  shows "bit (push_bit 1 c OR (if b then 1 else 0)) k
         = (if k = 0 then b else k < LENGTH('a) \<and> bit c (k - 1))"
  by (cases k) (auto simp: bit_or_iff bit_push_bit_iff bit_1_iff possible_bit_word simp del: push_bit_of_Suc_0 push_bit_Suc)

lemma buffer_bits_put:
  "n < 8 \<Longrightarrow> buffer_bits (push_bit 1 c OR (if b then 1 else 0)) (Suc n) = buffer_bits c n @ [b]"
  unfolding buffer_bits_def
  by (simp only: bit_shift_in upt_Suc map_append) (auto simp: Suc_diff_le)

lemma buffer_bits_0 [simp]: "buffer_bits c 0 = []"
  by (simp add: buffer_bits_def)

lemma byte_bits_buffer: "byte_bits c = buffer_bits c 8"
  by (simp add: byte_bits_def buffer_bits_def)

lemma put_bits:
  assumes "outputBufferPos s < 8"
  shows "obs_bits (put b s) = obs_bits s @ [b]" and "outputBufferPos (put b s) < 8"
proof -
  have *: "buffer_bits (push_bit 1 (outputBuffer s) OR (if b then 1 else 0)) (Suc (outputBufferPos s))
        = buffer_bits (outputBuffer s) (outputBufferPos s) @ [b]"
    using assms by (rule buffer_bits_put)
  show "obs_bits (put b s) = obs_bits s @ [b]"
    using assms *
    by (auto simp: put_def Let_def obs_bits_def OBitStream_flush_def byte_bits_buffer 
        simp del: push_bit_of_Suc_0 push_bit_Suc)
  show "outputBufferPos (put b s) < 8"
    using assms by (auto simp: put_def Let_def OBitStream_flush_def)
qed

lemma put_funpow_bits:
  "outputBufferPos s < 8 \<Longrightarrow>
   obs_bits ((put c ^^ n) s) = obs_bits s @ replicate n c \<and> outputBufferPos ((put c ^^ n) s) < 8"
  by (induction n) (simp_all add: put_bits replicate_append_same)

lemma write_bits_bits:
  assumes "outputBufferPos bs < 8"
  shows "obs_bits (snd (write_bits b e bs)) = obs_bits bs @ b # replicate (e_pending_bits e) (\<not> b)"
    and "outputBufferPos (snd (write_bits b e bs)) < 8"
    and "fst (write_bits b e bs) = e\<lparr>bits_written := bits_written e + (1 + e_pending_bits e), e_pending_bits := 0\<rparr>"
  using assms put_funpow_bits[where s = "put b bs" and c = "\<not> b" and n = "e_pending_bits e"]
  by (simp_all add: write_bits_def put_bits)


section \<open>Quantisation\<close>


lemma rnd_eqI: "x = of_int m / 2 ^ k \<Longrightarrow> \<bar>m\<bar> < 2 ^ 53 \<Longrightarrow> k \<le> 1074 \<Longrightarrow> rnd x = x"
  using rnd_dyadic[of m k] by simp

lemma dequant_temp:
  assumes "uint u \<le> 1023"
  shows "fsub (fmul (fadd (of_int (uint u - 512)) (1 / 2)) (fadd 64 (fdiv 1009 16384))) (1 / 2)
         = of_int (2099170 * (uint u - 512) + 1033201) / 32768"
proof -
  define k where "k = uint u - 512"
  have k: "- 512 \<le> k" "k \<le> 511" using assms by (simp_all add: k_def)
  have a: "fadd (of_int k) (1 / 2) = of_int k + 1 / 2"
    unfolding fadd_def by (rule rnd_eqI[where m = "2 * k + 1" and k = 1]) (use k in simp_all)
  have c0: "fdiv 1009 16384 = 1009 / 16384"
    unfolding fdiv_def by (rule rnd_eqI[where m = 1009 and k = 14]) simp_all
  have c: "fadd 64 (1009 / 16384) = 1049585 / 16384"
    unfolding fadd_def using rnd_eqI[where m = 1049585 and k = 14 and x = "64 + 1009 / 16384"] by simp
  have m: "fmul (of_int k + 1 / 2) (1049585 / 16384) = (of_int k + 1 / 2) * (1049585 / 16384)"
    unfolding fmul_def by (rule rnd_eqI[where m = "(2 * k + 1) * 1049585" and k = 15]) (use k in simp_all)
  have s: "fsub ((of_int k + 1 / 2) * (1049585 / 16384)) (1 / 2) = (of_int k + 1 / 2) * (1049585 / 16384) - 1 / 2"
    unfolding fsub_def by (rule rnd_eqI[where m = "(2 * k + 1) * 1049585 - 16384" and k = 15]) (use k in simp_all)
  show ?thesis
    unfolding k_def[symmetric] a c0 c m s by (simp add: field_simps)
qed

lemma trunc_int_of_int [simp]: "trunc_int (of_int n) = n"
  by (simp add: trunc_int_def)

lemma trunc_int_div: "0 < b \<Longrightarrow> trunc_int (of_int a / of_int b) = (if 0 \<le> a then a div b else - (- a div b))"
  by (auto simp: trunc_int_def floor_divide_of_int_eq ceiling_divide_eq_div zero_le_divide_iff)

lemma dequant_value:
  assumes "uint u \<le> 1023"
  shows "neuralink_10bit_to_16bit u = word_of_int (trunc_int (of_int (2099170 * (uint u - 512) + 1033201) / 32768))"
  unfolding neuralink_10bit_to_16bit_def Let_def dequant_temp[OF assms]
  by (simp add: double_to_i16_def std_trunc_def)

lemma dequant_trunc_bounds:
  assumes "- 512 \<le> k" "k \<le> 511"
  defines "t \<equiv> trunc_int (of_int (2099170 * k + 1033201) / 32768)"
  shows "64 * k \<le> t" "t \<le> 64 * k + 63"
  using assms(1,2) trunc_int_div[of 32768 "2099170 * k + 1033201"] unfolding t_def
  by (auto split: if_splits)

lemma quant_of_int:
  assumes "- 32768 \<le> t" "t \<le> 32767"
  shows "neuralink_16bit_to_10bit (word_of_int t) = word_of_int (t div 64 + 512)"
proof -
  have s: "sint (word_of_int t :: 16 word) = t"
    using assms by (simp add: sint_sbintrunc' signed_take_bit_int_eq_self)
  have "signed_drop_bit 6 (word_of_int t :: 16 word) = word_of_int (sint (signed_drop_bit 6 (word_of_int t :: 16 word)))"
    by simp
  also have "\<dots> = word_of_int (t div 64)"
    by (simp only: sint_signed_drop_bit_eq s drop_bit_eq_div) simp
  finally show ?thesis by (simp add: neuralink_16bit_to_10bit_def)
qed


text \<open>
  Claim C10. For every symbol \<open>u\<close> in \<open>[0, 1023]\<close>, the inverse quantiser followed by
  the forward quantiser gives \<open>u\<close> back:
  \<open>neuralink_16bit_to_10bit (neuralink_10bit_to_16bit u) = u\<close>.
\<close>

theorem quantization_roundtrip:
  assumes "u \<le> 1023"
  shows "neuralink_16bit_to_10bit (neuralink_10bit_to_16bit u) = u"
proof -
  have u: "uint u \<le> 1023" using assms by (simp add: word_le_def)
  define k where "k = uint u - 512"
  define t where "t = trunc_int (of_int (2099170 * k + 1033201) / 32768)"
  have k: "- 512 \<le> k" "k \<le> 511" using u by (simp_all add: k_def)
  have b: "64 * k \<le> t" "t \<le> 64 * k + 63" using dequant_trunc_bounds[OF k] by (simp_all add: t_def)
  then have d: "t div 64 = k" by linarith
  have "neuralink_16bit_to_10bit (neuralink_10bit_to_16bit u) = word_of_int (t div 64 + 512)"
    unfolding dequant_value[OF u] k_def[symmetric] t_def[symmetric]
    using b k by (intro quant_of_int) linarith+
  also have "\<dots> = u" by (simp add: d k_def)
  finally show ?thesis .
qed


theorem quantization_roundtrip_witness:
  "(512 :: 16 word) \<le> 1023 \<and> neuralink_16bit_to_10bit (neuralink_10bit_to_16bit 512) = 512"
  using quantization_roundtrip[of 512] by simp

section \<open>Flush of the encoder\<close>

text \<open>
  Claim C6, as amended. With \<open>p\<close> pending bits on entry, \<open>flush\<close> appends to the bit
  stream one bit (0 if \<open>low < Int25\<close>, else 1) followed by \<open>p + 1\<close> complementary bits,
  \<open>p + 2\<close> bits in all; \<open>bits_written\<close> grows by \<open>p + 2\<close> and no bit stays pending.
\<close>

theorem flush_emits:
  assumes "outputBufferPos bs < 8"
  shows "obs_bits (snd (flush e bs))
           = obs_bits bs @ (\<not> e_low e < Int25) # replicate (e_pending_bits e + 1) (e_low e < Int25)
         \<and> bits_written (fst (flush e bs)) = bits_written e + (e_pending_bits e + 2)
         \<and> e_pending_bits (fst (flush e bs)) = 0"
  using assms by (simp add: flush_def Let_def write_bits_bits)


theorem flush_emits_witness:
  "outputBufferPos (OBitStream_init []) < 8 \<and>
   obs_bits (snd (flush (ArithmeticEncoder_init erf_tanh) (OBitStream_init [])))
     = obs_bits (OBitStream_init []) @ [False, True]"
  using flush_emits[of "OBitStream_init []" "ArithmeticEncoder_init erf_tanh"]
  by (simp add: OBitStream_init_def ArithmeticEncoder_init_def Int25_def)

text \<open>
  Claim C6 as stated fails: with no pending bit the flush of the initial encoder emits
  two bits, not one.
\<close>

theorem flush_counterexample:
  "e_pending_bits (ArithmeticEncoder_init erf_tanh) = 0 \<and>
   length (obs_bits (snd (flush (ArithmeticEncoder_init erf_tanh) (OBitStream_init []))))
     \<noteq> length (obs_bits (OBitStream_init [])) + (e_pending_bits (ArithmeticEncoder_init erf_tanh) + 1)"
  using write_bits_bits(1)[of "OBitStream_init []" False
          "(ArithmeticEncoder_init erf_tanh)\<lparr>e_pending_bits := 1\<rparr>"]
  by (simp add: flush_def OBitStream_init_def ArithmeticEncoder_init_def Int25_def)

section \<open>Table construction\<close>

lemma fadd_mono: "a \<le> a' \<Longrightarrow> b \<le> b' \<Longrightarrow> fadd a b \<le> fadd a' b'"
  unfolding fadd_def by (intro rnd_mono) simp

lemma fsub_mono: "a \<le> a' \<Longrightarrow> b' \<le> b \<Longrightarrow> fsub a b \<le> fsub a' b'"
  unfolding fsub_def by (intro rnd_mono) simp

lemma fmul_mono: "0 \<le> a \<Longrightarrow> a \<le> a' \<Longrightarrow> 0 \<le> b \<Longrightarrow> b \<le> b' \<Longrightarrow> fmul a b \<le> fmul a' b'"
  unfolding fmul_def by (intro rnd_mono mult_mono) auto

lemma fmul_left_mono: "0 \<le> a \<Longrightarrow> b \<le> b' \<Longrightarrow> fmul a b \<le> fmul a b'"
  unfolding fmul_def by (intro rnd_mono mult_left_mono) auto

lemma fdiv_right_mono: "0 < c \<Longrightarrow> a \<le> a' \<Longrightarrow> fdiv a c \<le> fdiv a' c"
  unfolding fdiv_def by (intro rnd_mono divide_right_mono) auto

lemma fmul_nonneg: "0 \<le> a \<Longrightarrow> 0 \<le> b \<Longrightarrow> 0 \<le> fmul a b"
  unfolding fmul_def by (intro rnd_nonneg) auto


lemma fdiv_nonneg: "0 \<le> a \<Longrightarrow> 0 \<le> b \<Longrightarrow> 0 \<le> fdiv a b"
  unfolding fdiv_def by (intro rnd_nonneg) auto

lemma rnd_one [simp]: "rnd 1 = 1"
  using rnd_of_int[of 1] by simp

lemma rnd_numeral_small: "numeral n < (2::int) ^ 53 \<Longrightarrow> rnd (numeral n) = numeral n"
  using rnd_of_int[of "numeral n"] by simp

lemma fsqrt2_pos: "0 < fsqrt 2"
proof -
  have "1 \<le> sqrt (2::real)" by simp
  then have "rnd 1 \<le> rnd (sqrt 2)" by (rule rnd_mono)
  then show ?thesis by (simp add: fsqrt_def)
qed

lemma normal_cdf_mono:
  assumes "erf_ok erf" "i < 4" "1 \<le> j" "j \<le> k" "k \<le> 1025"
  shows "normal_cdf erf (real j) 511 (cdf_scale ! i) \<le> normal_cdf erf (real k) 511 (cdf_scale ! i)"
proof -
  have "erf (erf_arg i j) \<le> erf (erf_arg i k)"
    using assms unfolding erf_ok_def by blast
  then show ?thesis
    unfolding normal_cdf_def Let_def erf_arg_def by (intro fmul_left_mono fadd_mono) auto
qed

lemma normal_cdf_nonneg:
  assumes "erf_ok erf" "i < 4" "1 \<le> j" "j \<le> 1025"
  shows "0 \<le> normal_cdf erf (real j) 511 (cdf_scale ! i)"
proof -
  have "- 1 \<le> erf (erf_arg i j)"
    using assms unfolding erf_ok_def by blast
  then have "0 \<le> fadd 1 (erf (erf_arg i j))"
    unfolding fadd_def by (intro rnd_nonneg) linarith
  then show ?thesis
    unfolding normal_cdf_def Let_def erf_arg_def by (intro fmul_nonneg) auto
qed

text \<open>Bounds on the parameters of the four distributions.\<close>

lemma cdf_scale_pos: "i < 4 \<Longrightarrow> 0 < cdf_scale ! i"
proof -
  assume "i < 4"
  then consider "i = 0" | "i = 1" | "i = 2" | "i = 3" by linarith
  then show ?thesis
  proof cases
    case 1 then show ?thesis using rnd_ge_int[of 1 "5145 / 1000"] by (simp add: cdf_scale_def)
  next
    case 2 then show ?thesis using rnd_ge_int[of 1 "6035 / 1000"] by (simp add: cdf_scale_def)
  next
    case 3 then show ?thesis using rnd_ge_int[of 1 "8547 / 1000"] by (simp add: cdf_scale_def)
  next
    case 4 then show ?thesis using rnd_ge_int[of 1 "2005 / 100"] by (simp add: cdf_scale_def)
  qed
qed

lemma cdf_w_bounds: "i < 4 \<Longrightarrow> 1 / 4096 \<le> cdf_w ! i \<and> cdf_w ! i \<le> 1 / 4"
proof -
  assume "i < 4"
  then have "cdf_w ! i = rnd (25 / 100000)"
    by (auto simp: cdf_w_def nth_Cons' )
  then show ?thesis
    using rnd_ge_dyadic[of 1 12 "25 / 100000"] rnd_le_dyadic[of "25 / 100000" 1 2] by simp
qed

lemma cdf_z_bounds: "i < 4 \<Longrightarrow> 0 \<le> cdf_z ! i \<and> cdf_z ! i \<le> 128"
proof -
  assume "i < 4"
  then consider "i = 0" | "i = 1" | "i = 2" | "i = 3" by linarith
  then show ?thesis
  proof cases
    case 1 then show ?thesis using rnd_le_int[of "1063 / 10" 128] rnd_nonneg[of "1063 / 10"] by (simp add: cdf_z_def)
  next
    case 2 then show ?thesis using rnd_le_int[of "8284 / 100" 128] rnd_nonneg[of "8284 / 100"] by (simp add: cdf_z_def)
  next
    case 3 then show ?thesis using rnd_le_int[of "6287 / 100" 128] rnd_nonneg[of "6287 / 100"] by (simp add: cdf_z_def)
  next
    case 4 then show ?thesis using rnd_le_int[of "6186 / 100" 128] rnd_nonneg[of "6186 / 100"] by (simp add: cdf_z_def)
  qed
qed

lemma cdf_zn_bounds:
  assumes "i < 4"
  shows "0 \<le> fdiv (cdf_z ! i) (real NUM_SYMBOLS)" "fdiv (cdf_z ! i) (real NUM_SYMBOLS) \<le> 1 / 4"
proof -
  have z: "0 \<le> cdf_z ! i" "cdf_z ! i \<le> 128" using cdf_z_bounds[OF assms] by auto
  show "0 \<le> fdiv (cdf_z ! i) (real NUM_SYMBOLS)"
    using z by (intro fdiv_nonneg) (auto simp: NUM_SYMBOLS_def)
  have "cdf_z ! i / real NUM_SYMBOLS \<le> 1 / 4" using z by (simp add: NUM_SYMBOLS_def)
  then show "fdiv (cdf_z ! i) (real NUM_SYMBOLS) \<le> 1 / 4"
    unfolding fdiv_def using rnd_le_dyadic[of _ 1 2] by simp
qed


lemma cdf_factor_nonneg:
  assumes "w \<le> 1 / 4" "z \<le> 1 / 4"
  shows "0 \<le> fsub (fsub 1 w) z"
proof -
  have "3 / 4 \<le> fsub 1 w"
    unfolding fsub_def using assms(1) rnd_ge_dyadic[of 3 2 "1 - w"] by simp
  then show ?thesis
    unfolding fsub_def using assms(2) by (intro rnd_nonneg) linarith
qed

lemma cdf_mono:
  assumes "erf_ok erf" "i < 4" "1 \<le> j" "j \<le> k" "k \<le> 1025" "w \<le> 1 / 4" "0 \<le> z" "z \<le> 1 / 4"
  shows "cdf erf (real j) 511 (cdf_scale ! i) w z \<le> cdf erf (real k) 511 (cdf_scale ! i) w z"
proof -
  define px where "px = fadd (fmul (fsub (fsub 1 w) z) (normal_cdf erf (real j) 511 (cdf_scale ! i))) w"
  define py where "py = fadd (fmul (fsub (fsub 1 w) z) (normal_cdf erf (real k) 511 (cdf_scale ! i))) w"
  have le: "px \<le> py"
    unfolding px_def py_def
    using cdf_factor_nonneg[OF assms(6,8)] normal_cdf_mono[OF assms(1-5)]
    by (intro fadd_mono fmul_left_mono) auto
  have "rnd py = py" by (simp add: py_def fadd_def)
  then have up: "py \<le> fadd py z"
    unfolding fadd_def using rnd_mono[of py "py + z"] assms(7) by simp
  have "fadd px z \<le> fadd py z" using le by (intro fadd_mono) auto
  then show ?thesis
    using le up assms(4) by (auto simp: cdf_def px_def[symmetric] py_def[symmetric])
qed

lemma rnd_ge_4096: "1 / 4096 \<le> x \<Longrightarrow> 1 / 4096 \<le> rnd x"
  using rnd_ge_dyadic[of 1 12 x] by simp

lemma cdf_lower:
  assumes "erf_ok erf" "i < 4" "1 \<le> j" "j \<le> 1025" "1 / 4096 \<le> w" "w \<le> 1 / 4" "0 \<le> z" "z \<le> 1 / 4"
  shows "1 / 4096 \<le> cdf erf (real j) 511 (cdf_scale ! i) w z"
proof -
  define p where "p = fadd (fmul (fsub (fsub 1 w) z) (normal_cdf erf (real j) 511 (cdf_scale ! i))) w"
  have "0 \<le> fmul (fsub (fsub 1 w) z) (normal_cdf erf (real j) 511 (cdf_scale ! i))"
    using cdf_factor_nonneg[OF assms(6,8)] normal_cdf_nonneg[OF assms(1-4)] by (intro fmul_nonneg)
  then have p: "1 / 4096 \<le> p"
    unfolding p_def fadd_def using assms(5) by (intro rnd_ge_4096) linarith
  then have "1 / 4096 \<le> fadd p z"
    unfolding fadd_def using assms(7) by (intro rnd_ge_4096) linarith
  then show ?thesis using p by (simp add: cdf_def p_def[symmetric])
qed

lemma trunc_int_mono: "x \<le> y \<Longrightarrow> trunc_int x \<le> trunc_int y"
  unfolding trunc_int_def
  by (auto intro: floor_mono ceiling_mono) (smt (verit) ceiling_le_zero floor_mono ceiling_mono zero_le_floor)+

lemma ccft_scaled_bounds:
  assumes "erf_ok erf" "i < 4" "1 \<le> j" "j \<le> 1025"
  shows "0 \<le> ccft_scaled erf i j" "ccft_scaled erf i j \<le> 31742"
proof -
  define P where "P = (\<lambda>n. cdf erf (real n) 511 (cdf_scale ! i) (cdf_w ! i) (fdiv (cdf_z ! i) (real NUM_SYMBOLS)))"
  have pos: "1 / 4096 \<le> P n" if "1 \<le> n" "n \<le> 1025" for n
    unfolding P_def using cdf_w_bounds[OF assms(2)] cdf_zn_bounds[OF assms(2)] assms(1,2) that
    by (intro cdf_lower) auto
  have mono: "P n \<le> P k" if "1 \<le> n" "n \<le> k" "k \<le> 1025" for n k
    unfolding P_def using cdf_w_bounds[OF assms(2)] cdf_zn_bounds[OF assms(2)] assms(1,2) that
    by (intro cdf_mono) auto
  have "P j \<le> P NUM_SYMBOLS" using assms(3,4) by (intro mono) (simp_all add: NUM_SYMBOLS_def)
  then have "P j / P NUM_SYMBOLS \<le> 1"
    using pos[of NUM_SYMBOLS] by (simp add: field_simps NUM_SYMBOLS_def)
  then have r1: "fdiv (P j) (P NUM_SYMBOLS) \<le> 1"
    unfolding fdiv_def using rnd_le_int[of _ 1] by simp
  have r0: "0 \<le> fdiv (P j) (P NUM_SYMBOLS)"
    using pos[of j] pos[of NUM_SYMBOLS] assms(3,4) by (intro fdiv_nonneg) (simp_all add: NUM_SYMBOLS_def)
  have v0: "0 \<le> fmul (fdiv (P j) (P NUM_SYMBOLS)) 31742"
    using r0 by (intro fmul_nonneg) auto
  have "fdiv (P j) (P NUM_SYMBOLS) * 31742 \<le> of_int 31742" using r1 by simp
  then have v1: "fmul (fdiv (P j) (P NUM_SYMBOLS)) 31742 \<le> of_int 31742"
    unfolding fmul_def by (intro rnd_le_int) auto
  have s: "ccft_scaled erf i j = trunc_int (fmul (fdiv (P j) (P NUM_SYMBOLS)) 31742)"
    by (simp add: ccft_scaled_def P_def MAX_FREQUENCY_def NUM_SYMBOLS_def)
  show "0 \<le> ccft_scaled erf i j"
    unfolding s using trunc_int_mono[OF v0] trunc_int_of_int[of 0] by simp
  show "ccft_scaled erf i j \<le> 31742"
    unfolding s using trunc_int_mono[OF v1] by (simp only: trunc_int_of_int)
qed

lemma ccft_scaled_mono:
  assumes "erf_ok erf" "i < 4" "1 \<le> j" "j \<le> k" "k \<le> 1025"
  shows "ccft_scaled erf i j \<le> ccft_scaled erf i k"
proof -
  define P where "P = (\<lambda>n. cdf erf (real n) 511 (cdf_scale ! i) (cdf_w ! i) (fdiv (cdf_z ! i) (real NUM_SYMBOLS)))"
  have pos: "1 / 4096 \<le> P n" if "1 \<le> n" "n \<le> 1025" for n
    unfolding P_def using cdf_w_bounds[OF assms(2)] cdf_zn_bounds[OF assms(2)] assms(1,2) that
    by (intro cdf_lower) auto
  have mono: "P n \<le> P m" if "1 \<le> n" "n \<le> m" "m \<le> 1025" for n m
    unfolding P_def using cdf_w_bounds[OF assms(2)] cdf_zn_bounds[OF assms(2)] assms(1,2) that
    by (intro cdf_mono) auto
  have "P j \<le> P k" using assms(3-5) by (intro mono)
  then have "fdiv (P j) (P NUM_SYMBOLS) \<le> fdiv (P k) (P NUM_SYMBOLS)"
    using pos[of NUM_SYMBOLS] by (intro fdiv_right_mono) (simp_all add: NUM_SYMBOLS_def)
  moreover have "0 \<le> fdiv (P j) (P NUM_SYMBOLS)"
    using pos[of j] pos[of NUM_SYMBOLS] assms(3-5) by (intro fdiv_nonneg) (simp_all add: NUM_SYMBOLS_def)
  ultimately have "fmul (fdiv (P j) (P NUM_SYMBOLS)) 31742 \<le> fmul (fdiv (P k) (P NUM_SYMBOLS)) 31742"
    by (intro fmul_mono) auto
  moreover have "ccft_scaled erf i n = trunc_int (fmul (fdiv (P n) (P NUM_SYMBOLS)) 31742)" for n
    by (simp add: ccft_scaled_def P_def MAX_FREQUENCY_def NUM_SYMBOLS_def)
  ultimately show ?thesis
    by (simp add: trunc_int_mono)
qed

lemma unat_ccft_entry:
  assumes "erf_ok erf" "i < 4" "1 \<le> j" "j \<le> 1024"
  shows "unat (ccft_entry erf i j) = nat (ccft_scaled erf i j) + j"
proof -
  have b: "0 \<le> ccft_scaled erf i j" "ccft_scaled erf i j \<le> 31742"
    using ccft_scaled_bounds[OF assms(1,2), of j] assms(3,4) by auto
  have "ccft_entry erf i j = word_of_int (ccft_scaled erf i j) + of_nat j"
    by (simp add: ccft_entry_def ccft_scaled_def Let_def double_to_u16_def)
  also have "\<dots> = (of_nat (nat (ccft_scaled erf i j) + j) :: 16 word)"
    using b by simp
  finally show ?thesis
    using b assms(4) by (simp add: unat_of_nat del: of_nat_add)
qed


lemma ccft_row_nth:
  "ccft_row erf i ! 0 = 0"
  "1 \<le> j \<Longrightarrow> j \<le> 1024 \<Longrightarrow> ccft_row erf i ! j = ccft_entry erf i j"
  "ccft_row erf i ! 1025 = 0x7FFF"
  "length (ccft_row erf i) = 1026"
proof -
  show "ccft_row erf i ! 0 = 0" by (simp add: ccft_row_def)
  show "length (ccft_row erf i) = 1026" by (simp add: ccft_row_def NUM_SYMBOLS_def)
  show "ccft_row erf i ! 1025 = 0x7FFF"
    using nth_append_length[of "0 # map (ccft_entry erf i) [1..<NUM_SYMBOLS]" MAX_FREQUENCY "[]"]
    by (simp add: ccft_row_def NUM_SYMBOLS_def MAX_FREQUENCY_def)
  show "ccft_row erf i ! j = ccft_entry erf i j" if j1: "1 \<le> j" and j2: "j \<le> 1024"
  proof -
    obtain n where n: "j = Suc n" using j1 by (cases j) auto
    then have "n < length (map (ccft_entry erf i) [1..<NUM_SYMBOLS])"
      using j2 by (simp add: NUM_SYMBOLS_def)
    then have "ccft_row erf i ! j = map (ccft_entry erf i) [1..<NUM_SYMBOLS] ! n"
      by (simp add: ccft_row_def n nth_append)
    also have "\<dots> = ccft_entry erf i j"
      using j2 n by (simp add: NUM_SYMBOLS_def)
    finally show ?thesis .
  qed
qed

lemma ccft_row_ok:
  assumes "erf_ok erf" "i < 4"
  shows "table_ok (ccft_row erf i)"
proof -
  have step: "ccft_row erf i ! j < ccft_row erf i ! (j + 1)" if jl: "j < 1025" for j
  proof -
    consider "j = 0" | "1 \<le> j" "j < 1024" | "j = 1024" using jl by linarith
    then show ?thesis
    proof cases
      case 1
      have "unat (ccft_entry erf i 1) = nat (ccft_scaled erf i 1) + 1"
        using unat_ccft_entry[OF assms, of 1] by simp
      then show ?thesis
        using 1 ccft_row_nth(2)[of 1 erf i] by (simp add: ccft_row_nth(1) word_less_nat_alt)
    next
      case 2
      have "ccft_scaled erf i j \<le> ccft_scaled erf i (j + 1)"
        using 2 by (intro ccft_scaled_mono[OF assms]) simp_all
      moreover have "0 \<le> ccft_scaled erf i j"
        using ccft_scaled_bounds(1)[OF assms, of j] 2 by simp
      ultimately have "unat (ccft_entry erf i j) < unat (ccft_entry erf i (j + 1))"
        using unat_ccft_entry[OF assms, of j] unat_ccft_entry[OF assms, of "j + 1"] 2 by simp
      then show ?thesis
        using 2 ccft_row_nth(2)[of j erf i] ccft_row_nth(2)[of "j + 1" erf i]
        by (simp add: word_less_nat_alt)
    next
      case 3
      have "ccft_scaled erf i 1024 \<le> 31742"
        using ccft_scaled_bounds(2)[OF assms, of 1024] by simp
      then have "unat (ccft_entry erf i 1024) < 32767"
        using unat_ccft_entry[OF assms, of 1024] by simp
      then show ?thesis
        using 3 ccft_row_nth(2)[of 1024 erf i] ccft_row_nth(3)[of erf i]
        by (simp add: word_less_nat_alt)
    qed
  qed
  show ?thesis
    unfolding table_ok_def using step ccft_row_nth(1,3,4)[of erf i] by simp
qed

text \<open>
  Claim C5. For every distribution index \<open>i < 4\<close> the table built by the constructor has
  \<open>ccft[i][0] = 0\<close>, \<open>ccft[i][1025] = 32767\<close> and \<open>ccft[i][j] < ccft[i][j+1]\<close> for
  every \<open>j < 1025\<close>. Of the library's \<open>erf\<close> this needs only \<open>erf_ok\<close>: that along the
  1025 arguments at which the constructor calls it for a row its values do not decrease
  and are not below \<open>-1\<close>; at other arguments \<open>erf\<close> may be anything.
\<close>

theorem table_invariants:
  assumes "erf_ok erf" "i < 4"
  shows "ccft (Model_init erf) ! i ! 0 = 0
       \<and> ccft (Model_init erf) ! i ! 1025 = 32767
       \<and> (\<forall>j < 1025. ccft (Model_init erf) ! i ! j < ccft (Model_init erf) ! i ! (j + 1))"
proof -
  have "ccft (Model_init erf) ! i = ccft_row erf i"
    using assms(2) by (simp add: Model_init_def NUM_DIST_def)
  then show ?thesis using ccft_row_ok[OF assms] by (simp add: table_ok_def)
qed

lemma erf_tanh_ok: "erf_ok erf_tanh"
proof -
  have m: "erf_tanh x \<le> erf_tanh y" if "x \<le> y" for x y
    unfolding erf_tanh_def using that by (intro rnd_mono) simp
  have u: "erf_tanh x \<le> 1" for x
    unfolding erf_tanh_def using rnd_le_int[of "tanh (6 / 5 * x)" 1] tanh_real_lt_1[of "6 / 5 * x"] by simp
  have l: "- 1 \<le> erf_tanh x" for x
    unfolding erf_tanh_def using rnd_ge_int[of "- 1" "tanh (6 / 5 * x)"] tanh_real_gt_neg1[of "6 / 5 * x"] by simp
  have a: "erf_arg i j \<le> erf_arg i k" if "i < 4" "j \<le> k" for i j k
    unfolding erf_arg_def using that cdf_scale_pos[of i] fsqrt2_pos
    by (intro fdiv_right_mono fsub_mono) auto
  show ?thesis unfolding erf_ok_def using m[OF a] l by blast
qed

theorem table_invariants_witness:
  "ccft (Model_init erf_tanh) ! 0 ! 0 = 0
   \<and> ccft (Model_init erf_tanh) ! 0 ! 1025 = 32767
   \<and> ccft (Model_init erf_tanh) ! 0 ! 512 < ccft (Model_init erf_tanh) ! 0 ! 513"
proof -
  have "(512 :: nat) < 1025" by simp
  then show ?thesis using table_invariants[OF erf_tanh_ok, of 0] by fastforce
qed

section \<open>Renormalisation\<close>

declare renorm.simps [simp del]

lemma renorm_E1:
  "l \<le> h \<Longrightarrow> h < 65536 \<Longrightarrow>
   renorm l h = (case renorm (2 * l) (2 * h + 1) of (rs, r) \<Rightarrow> (E1 # rs, r))"
  by (subst renorm.simps) simp

lemma renorm_E2:
  "l \<le> h \<Longrightarrow> h \<le> 131071 \<Longrightarrow> 65536 \<le> l \<Longrightarrow>
   renorm l h = (case renorm (2 * (l - 65536)) (2 * (h - 65536) + 1) of (rs, r) \<Rightarrow> (E2 # rs, r))"
  by (subst renorm.simps) simp

lemma renorm_E3:
  "h \<le> 131071 \<Longrightarrow> \<not> h < 65536 \<Longrightarrow> \<not> 65536 \<le> l \<Longrightarrow> 32768 \<le> l \<Longrightarrow> h < 98304 \<Longrightarrow>
   renorm l h = (case renorm (2 * (l - 32768)) (2 * (h - 32768) + 1) of (rs, r) \<Rightarrow> (E3 # rs, r))"
  by (subst renorm.simps) simp

lemma renorm_stop:
  "\<not> h < 65536 \<Longrightarrow> \<not> 65536 \<le> l \<Longrightarrow> \<not> (32768 \<le> l \<and> h < 98304) \<Longrightarrow>
   renorm l h = ([], l, h)"
  by (subst renorm.simps) auto

lemma renorm_result:
  assumes "renorm l h = (rs, l', h')" "l \<le> h" "h \<le> 131071"
  shows "l' < 65536 \<and> 65536 \<le> h' \<and> h' \<le> 131071 \<and> (l' < 32768 \<or> 98304 \<le> h')"
  using assms
proof (induction l h arbitrary: rs rule: renorm.induct)
  case (1 l h)
  show ?case
  proof (cases "h < 65536")
    case True
    then obtain rs1 where r: "renorm (2 * l) (2 * h + 1) = (rs1, l', h')"
      using "1.prems" by (auto simp: renorm_E1 split: prod.splits)
    show ?thesis
      by (rule "1.IH"(1)[OF _ True r]) (use "1.prems" True in auto)
  next
    case False
    show ?thesis
    proof (cases "65536 \<le> l")
      case True
      then obtain rs1 where r: "renorm (2 * (l - 65536)) (2 * (h - 65536) + 1) = (rs1, l', h')"
        using "1.prems" False by (auto simp: renorm_E2 split: prod.splits)
      show ?thesis
        by (rule "1.IH"(2)[OF _ False True r]) (use "1.prems" True in auto)
    next
      case nE2: False
      show ?thesis
      proof (cases "32768 \<le> l \<and> h < 98304")
        case True
        then obtain rs1 where r: "renorm (2 * (l - 32768)) (2 * (h - 32768) + 1) = (rs1, l', h')"
          using "1.prems" False nE2 by (auto simp: renorm_E3 split: prod.splits)
        show ?thesis
          by (rule "1.IH"(3)[OF _ False nE2 True r]) (use "1.prems" True False in auto)
      next
        case nE3: False
        then have "l' = l" "h' = h"
          using "1.prems" False nE2 by (simp_all add: renorm_stop)
        then show ?thesis using False nE2 nE3 "1.prems" by auto
      qed
    qed
  qed
qed



lemma MAX_CODE_mask: "MAX_CODE = mask 17"
  by (simp add: MAX_CODE_def mask_eq_exp_minus_1)

lemma unat_consts [simp]:
  "unat MAX_CODE = 131071" "unat Int25 = 32768" "unat Int50 = 65536" "unat Int75 = 98304"
  by (simp_all add: MAX_CODE_def Int25_def Int50_def Int75_def)

lemma and_MAX_CODE: "unat (x AND MAX_CODE) = unat x mod 131072"
proof -
  have "unat (x AND MAX_CODE) = unat (take_bit 17 x)"
    by (simp only: MAX_CODE_mask take_bit_eq_mask)
  also have "\<dots> = take_bit 17 (unat x)" by (simp only: unsigned_take_bit_eq)
  also have "\<dots> = unat x mod 131072" by (simp add: take_bit_eq_mod)
  finally show ?thesis .
qed

lemma shift_or_1: "push_bit 1 x OR 1 = 2 * x + 1" for x :: "32 word"
proof -
  have "(2 * x) AND 1 = 0"
    by (rule bit_eqI) (auto simp: bit_and_iff bit_1_iff bit_double_iff)
  then have "2 * x + 1 = (2 * x) OR 1" by (rule disjunctive_add_eq_or)
  then show ?thesis by (simp add: mult.commute)
qed


lemma unat_double_mod: "unat (2 * x) mod 131072 = (2 * unat x) mod 131072" for x :: "32 word"
proof -
  have "unat (2 * x) mod 2 ^ 17 = ((2 * unat x) mod 2 ^ 32) mod 2 ^ 17"
    by (simp add: unat_word_ariths)
  also have "\<dots> = (2 * unat x) mod 2 ^ 17"
    by (rule mod_mod_cancel) (simp add: le_imp_power_dvd)
  finally show ?thesis by simp
qed

lemma unat_double1_mod: "unat (2 * x + 1) mod 131072 = (2 * unat x + 1) mod 131072" for x :: "32 word"
proof -
  have "unat (2 * x + 1) mod 2 ^ 17 = ((2 * unat x + 1) mod 2 ^ 32) mod 2 ^ 17"
    by (simp add: unat_word_ariths mod_simps)
  also have "\<dots> = (2 * unat x + 1) mod 2 ^ 17"
    by (rule mod_mod_cancel) (simp add: le_imp_power_dvd)
  finally show ?thesis by simp
qed

lemma unat_shift_low: "unat (push_bit 1 x AND MAX_CODE) = (2 * unat x) mod 131072"
  for x :: "32 word"
  using unat_double_mod[of x] by (simp add: and_MAX_CODE mult.commute)

lemma unat_shift_high: "unat ((push_bit 1 x OR 1) AND MAX_CODE) = (2 * unat x + 1) mod 131072"
  for x :: "32 word"
  using unat_double1_mod[of x] by (simp only: shift_or_1 and_MAX_CODE)





lemma encode_loop_E1:
  "e_high e < Int50 \<Longrightarrow>
   encode_loop e bs = encode_loop (encode_shift (fst (write_bits False e bs))) (snd (write_bits False e bs))"
  by (subst encode_loop.simps) (simp add: case_prod_beta)

lemma encode_loop_E2:
  "\<not> e_high e < Int50 \<Longrightarrow> Int50 \<le> e_low e \<Longrightarrow>
   encode_loop e bs = encode_loop (encode_shift (fst (write_bits True e bs))) (snd (write_bits True e bs))"
  by (subst encode_loop.simps) (simp add: case_prod_beta)

lemma encode_loop_E3:
  "\<not> e_high e < Int50 \<Longrightarrow> \<not> Int50 \<le> e_low e \<Longrightarrow> Int25 \<le> e_low e \<Longrightarrow> e_high e < Int75 \<Longrightarrow>
   encode_loop e bs = encode_loop (encode_shift (e\<lparr>e_pending_bits := e_pending_bits e + 1,
                            e_low := e_low e - Int25, e_high := e_high e - Int25\<rparr>)) bs"
  by (subst encode_loop.simps) simp

lemma encode_loop_stop:
  "\<not> e_high e < Int50 \<Longrightarrow> \<not> Int50 \<le> e_low e \<Longrightarrow> \<not> (Int25 \<le> e_low e \<and> e_high e < Int75) \<Longrightarrow>
   encode_loop e bs = Some (e, bs)"
  by (subst encode_loop.simps) auto

lemma mod_shift:
  "65536 \<le> x \<Longrightarrow> x \<le> 131071 \<Longrightarrow> (2 * x) mod 131072 = 2 * (x - 65536)"
  "65536 \<le> x \<Longrightarrow> x \<le> 131071 \<Longrightarrow> (2 * x + 1) mod 131072 = 2 * (x - 65536) + 1"
  for x :: nat
proof -
  assume a: "65536 \<le> x" "x \<le> 131071"
  have 1: "2 * x = 131072 + 2 * (x - 65536)" using a by linarith
  have 2: "2 * (x - 65536) + 1 < 131072" using a by linarith
  show "(2 * x) mod 131072 = 2 * (x - 65536)"
    unfolding 1 using 2 by simp
  have 3: "2 * x + 1 = 131072 + (2 * (x - 65536) + 1)" using a by linarith
  show "(2 * x + 1) mod 131072 = 2 * (x - 65536) + 1"
    by (simp only: 3 mod_add_self1 mod_less[OF 2])
qed

lemma encode_shift_fields:
  "unat (e_low (encode_shift e)) = (2 * unat (e_low e)) mod 131072"
  "unat (e_high (encode_shift e)) = (2 * unat (e_high e) + 1) mod 131072"
  "e_pending_bits (encode_shift e) = e_pending_bits e"
  "e_model (encode_shift e) = e_model e"
  "bits_written (encode_shift e) = bits_written e"
proof -
  show "unat (e_low (encode_shift e)) = (2 * unat (e_low e)) mod 131072"
    unfolding encode_shift_def using unat_shift_low[of "e_low e"] by simp
  show "unat (e_high (encode_shift e)) = (2 * unat (e_high e) + 1) mod 131072"
    unfolding encode_shift_def using unat_shift_high[of "e_high e"] by simp
qed (simp_all add: encode_shift_def)

lemma write_bits_fields:
  "e_low (fst (write_bits b e bs)) = e_low e"
  "e_high (fst (write_bits b e bs)) = e_high e"
  "e_pending_bits (fst (write_bits b e bs)) = 0"
  "e_model (fst (write_bits b e bs)) = e_model e"
  "bits_written (fst (write_bits b e bs)) = bits_written e + (1 + e_pending_bits e)"
  by (simp_all add: write_bits_def)

lemma encode_loop_to_step:
  assumes "encode_loop e bs = encode_loop e2 bs2"
    and "encode_loop_to e2 bs2 rs1 l' h'"
    and "pending_after (e_pending_bits e2) rs1 = pending_after (e_pending_bits e) rs"
    and "e_model e2 = e_model e"
    and "bits_written e2 + length (emitted (e_pending_bits e2) rs1)
         = bits_written e + length (emitted (e_pending_bits e) rs)"
    and "obs_bits bs2 @ emitted (e_pending_bits e2) rs1 = obs_bits bs @ emitted (e_pending_bits e) rs"
  shows "encode_loop_to e bs rs l' h'"
proof -
  obtain e' bs' where *: "encode_loop e2 bs2 = Some (e', bs')"
        "unat (e_low e') = l'" "unat (e_high e') = h'"
        "e_pending_bits e' = pending_after (e_pending_bits e2) rs1"
        "e_model e' = e_model e2"
        "bits_written e' = bits_written e2 + length (emitted (e_pending_bits e2) rs1)"
        "obs_bits bs' = obs_bits bs2 @ emitted (e_pending_bits e2) rs1" "outputBufferPos bs' < 8"
    using assms(2) unfolding encode_loop_to_def by blast
  show ?thesis
    unfolding encode_loop_to_def
    by (rule exI[of _ e'], rule exI[of _ bs']) (simp add: * assms(1,3,4,5,6))
qed

lemma encode_loop_renorm_aux:
  "\<forall>(e::ArithmeticEncoder) (bs::OBitStream) rs. unat (e_low e) = l \<and> unat (e_high e) = h \<and> renorm l h = (rs, l', h')
      \<and> l \<le> h \<and> h \<le> 131071 \<and> outputBufferPos bs < 8 \<longrightarrow> encode_loop_to e bs rs l' h'"
proof (induction l h rule: renorm.induct)
  case (1 l h)
  show ?case
  proof (intro allI impI, elim conjE)
    fix e :: ArithmeticEncoder and bs :: OBitStream and rs
    assume l: "unat (e_low e) = l" and h: "unat (e_high e) = h" and r: "renorm l h = (rs, l', h')"
      and lh: "l \<le> h" and hm: "h \<le> 131071" and pos: "outputBufferPos bs < 8"
    have inside: "l \<le> h \<and> h \<le> 131071" using lh hm by simp
    have c1: "e_high e < Int50 \<longleftrightarrow> h < 65536" by (simp add: word_less_nat_alt h)
    have c2: "Int50 \<le> e_low e \<longleftrightarrow> 65536 \<le> l" by (simp add: word_le_nat_alt l)
    have c3: "Int25 \<le> e_low e \<longleftrightarrow> 32768 \<le> l" by (simp add: word_le_nat_alt l)
    have c4: "e_high e < Int75 \<longleftrightarrow> h < 98304" by (simp add: word_less_nat_alt h)
    show "encode_loop_to e bs rs l' h'"
    proof -
      show ?thesis
      proof (cases "h < 65536")
        case True
        obtain rs1 where r1: "renorm (2 * l) (2 * h + 1) = (rs1, l', h')" and rs: "rs = E1 # rs1"
          using r lh hm True by (auto simp: renorm_E1 split: prod.splits)
        define e2 where "e2 = encode_shift (fst (write_bits False e bs))"
        define bs2 where "bs2 = snd (write_bits False e bs)"
        have el: "unat (e_low e2) = 2 * l" using True lh
          by (simp add: e2_def encode_shift_fields write_bits_fields l)
        have eh: "unat (e_high e2) = 2 * h + 1" using True lh
          by (simp add: e2_def encode_shift_fields write_bits_fields h)
        have ep: "e_pending_bits e2 = 0" "e_model e2 = e_model e"
          "bits_written e2 = bits_written e + (1 + e_pending_bits e)"
          by (simp_all add: e2_def encode_shift_fields write_bits_fields)
        have ob: "obs_bits bs2 = obs_bits bs @ False # replicate (e_pending_bits e) True"
          "outputBufferPos bs2 < 8"
          using write_bits_bits(1,2)[OF pos, of False e] by (simp_all add: bs2_def)
        have ih: "encode_loop_to e2 bs2 rs1 l' h'"
        proof -
          have "2 * l \<le> 2 * h + 1" "2 * h + 1 \<le> 131071" using lh True by auto
          then show ?thesis
            using "1.IH"(1)[OF inside True, THEN spec, of e2, THEN spec, of bs2, THEN spec, of rs1]
              el eh r1 ob(2) by simp
        qed
        have eq: "encode_loop e bs = encode_loop e2 bs2"
          unfolding e2_def bs2_def using c1 True by (intro encode_loop_E1) simp
        show ?thesis
          by (rule encode_loop_to_step[OF eq ih]) (simp_all add: rs ep ob)
      next
        case False
        show ?thesis
        proof (cases "65536 \<le> l")
          case True
          obtain rs1 where r1: "renorm (2 * (l - 65536)) (2 * (h - 65536) + 1) = (rs1, l', h')" and rs: "rs = E2 # rs1"
            using r lh hm True False by (auto simp: renorm_E2 split: prod.splits)
          define e2 where "e2 = encode_shift (fst (write_bits True e bs))"
          define bs2 where "bs2 = snd (write_bits True e bs)"
          have "(2 * l) mod 131072 = 2 * (l - 65536)" using True lh hm
            by (intro mod_shift) auto
          then have el: "unat (e_low e2) = 2 * (l - 65536)"
            by (simp add: e2_def encode_shift_fields write_bits_fields l)
          have "(2 * h + 1) mod 131072 = 2 * (h - 65536) + 1" using True lh hm
            by (intro mod_shift) auto
          then have eh: "unat (e_high e2) = 2 * (h - 65536) + 1"
            by (simp add: e2_def encode_shift_fields write_bits_fields h)
          have ep: "e_pending_bits e2 = 0" "e_model e2 = e_model e"
            "bits_written e2 = bits_written e + (1 + e_pending_bits e)"
            by (simp_all add: e2_def encode_shift_fields write_bits_fields)
          have ob: "obs_bits bs2 = obs_bits bs @ True # replicate (e_pending_bits e) False"
            "outputBufferPos bs2 < 8"
            using write_bits_bits(1,2)[OF pos, of True e] by (simp_all add: bs2_def)
          have ih: "encode_loop_to e2 bs2 rs1 l' h'"
          proof -
            have "2 * (l - 65536) \<le> 2 * (h - 65536) + 1" "2 * (h - 65536) + 1 \<le> 131071"
              using lh hm True by auto
            then show ?thesis
              using "1.IH"(2)[OF inside False True, THEN spec, of e2, THEN spec, of bs2, THEN spec, of rs1]
                el eh r1 ob(2) by simp
          qed
          have eq: "encode_loop e bs = encode_loop e2 bs2"
            unfolding e2_def bs2_def using c1 c2 False True by (intro encode_loop_E2) simp_all
          show ?thesis
            by (rule encode_loop_to_step[OF eq ih]) (simp_all add: rs ep ob)
        next
          case nE2: False
          show ?thesis
          proof (cases "32768 \<le> l \<and> h < 98304")
            case True
            obtain rs1 where r1: "renorm (2 * (l - 32768)) (2 * (h - 32768) + 1) = (rs1, l', h')" and rs: "rs = E3 # rs1"
              using r lh hm True False nE2 by (auto simp: renorm_E3 split: prod.splits)
            define e2 where "e2 = encode_shift (e\<lparr>e_pending_bits := e_pending_bits e + 1,
                              e_low := e_low e - Int25, e_high := e_high e - Int25\<rparr>)"
            have ul: "unat (e_low e - Int25) = l - 32768"
              using True by (simp add: unat_sub word_le_nat_alt l)
            have uh: "unat (e_high e - Int25) = h - 32768"
              using True lh by (simp add: unat_sub word_le_nat_alt h)
            have "(2 * (l - 32768)) mod 131072 = 2 * (l - 32768)" using True lh hm
              by (intro mod_less) linarith
            then have el: "unat (e_low e2) = 2 * (l - 32768)"
              by (simp add: e2_def encode_shift_fields ul)
            have "(2 * (h - 32768) + 1) mod 131072 = 2 * (h - 32768) + 1" using True lh hm
              by (intro mod_less) linarith
            then have eh: "unat (e_high e2) = 2 * (h - 32768) + 1"
              by (simp add: e2_def encode_shift_fields uh)
            have ep: "e_pending_bits e2 = e_pending_bits e + 1" "e_model e2 = e_model e"
              "bits_written e2 = bits_written e"
              by (simp_all add: e2_def encode_shift_fields)
            have ih: "encode_loop_to e2 bs rs1 l' h'"
            proof -
              have "2 * (l - 32768) \<le> 2 * (h - 32768) + 1" "2 * (h - 32768) + 1 \<le> 131071"
                using lh hm True by auto
              then show ?thesis
                using "1.IH"(3)[OF inside False nE2 True, THEN spec, of e2, THEN spec, of bs, THEN spec, of rs1]
                  el eh r1 pos by simp
            qed
            have eq: "encode_loop e bs = encode_loop e2 bs"
              unfolding e2_def using c1 c2 c3 c4 False nE2 True by (intro encode_loop_E3) simp_all
            show ?thesis
              by (rule encode_loop_to_step[OF eq ih]) (simp_all add: rs ep)
          next
            case nE3: False
            have "rs = []" "l' = l" "h' = h"
              using r False nE2 nE3 by (simp_all add: renorm_stop)
            then show ?thesis
              unfolding encode_loop_to_def
              using encode_loop_stop[of e bs] c1 c2 c3 c4 False nE2 nE3 l h pos by auto
          qed
        qed
      qed
    qed
  qed
qed

section \<open>Narrowing the interval\<close>

lemma narrow_bounds:
  assumes "l < h" "32768 \<le> h - l" "a < b" "b \<le> 32767" "narrow l h a b = (l', h')"
  shows "l \<le> l'" "l' \<le> h'" "h' \<le> h"
proof -
  define r where "r = h - l + 1"
  have r: "32769 \<le> r" using assms(2) by (simp add: r_def)
  have l': "l' = l + r * a div 32767" and h': "h' = l + r * b div 32767 - 1"
    using assms(5) by (simp_all add: narrow_def r_def)
  show "l \<le> l'" by (simp add: l')
  have "r * a + 32767 \<le> r * b"
  proof -
    have "r * (a + 1) \<le> r * b" using assms(3) by (intro mult_le_mono2) simp
    then have "r * a + r \<le> r * b" by (simp add: algebra_simps)
    then show ?thesis using r by linarith
  qed
  then have "(r * a + 32767) div 32767 \<le> r * b div 32767" by (rule div_le_mono)
  then have s: "r * a div 32767 + 1 \<le> r * b div 32767" by simp
  then show "l' \<le> h'" by (simp add: l' h')
  have "r * b \<le> r * 32767" using assms(4) by simp
  then have "r * b div 32767 \<le> r * 32767 div 32767" by (rule div_le_mono)
  then have "r * b div 32767 \<le> r" by simp
  then show "h' \<le> h" using assms(1) by (simp add: h' r_def)
qed

lemma forward_range_unat:
  fixes low high sl sh :: "32 word"
  assumes "unat low < unat high" "unat high \<le> 131071" "32768 \<le> unat high - unat low"
    and "unat sl < unat sh" "unat sh \<le> 32767"
  shows "unat (fst (forward_range low high sl sh)) = fst (narrow (unat low) (unat high) (unat sl) (unat sh))"
    and "unat (snd (forward_range low high sl sh)) = snd (narrow (unat low) (unat high) (unat sl) (unat sh))"
proof -
  define l h a b where "l = unat low" and "h = unat high" and "a = unat sl" and "b = unat sh"
  define r where "r = h - l + 1"
  have lh: "l < h" "h \<le> 131071" "32768 \<le> h - l" "a < b" "b \<le> 32767"
    using assms by (simp_all add: l_def h_def a_def b_def)
  have r: "32769 \<le> r" "r \<le> 131072" using lh by (simp_all add: r_def)
  have ur: "unat (high - low + 1) = r"
  proof -
    have "unat (high - low) = h - l"
      using lh(1) by (simp add: unat_sub word_le_nat_alt l_def h_def)
    moreover have "unat (high - low) + unat (1 :: 32 word) < 2 ^ 32"
      using lh calculation by simp
    ultimately show ?thesis
      using unat_add_lem[of "high - low" 1] by (simp add: r_def)
  qed
  have rb: "r * b < 2 ^ 32"
  proof -
    have "r * b \<le> 131072 * 32767" using r(2) lh(5) by (rule mult_le_mono)
    then show ?thesis by simp
  qed
  have ra: "r * a < 2 ^ 32" using rb lh(4)
    by (meson le_less_trans less_imp_le_nat mult_le_mono2)
  have mb: "unat ((high - low + 1) * sh) = r * b"
    using unat_mult_lem[of "high - low + 1" sh] rb by (simp add: ur b_def)
  have ma: "unat ((high - low + 1) * sl) = r * a"
    using unat_mult_lem[of "high - low + 1" sl] ra by (simp add: ur a_def)
  have db: "unat ((high - low + 1) * sh div 0x7FFF) = r * b div 32767"
    by (simp add: unat_div mb)
  have da: "unat ((high - low + 1) * sl div 0x7FFF) = r * a div 32767"
    by (simp add: unat_div ma)
  obtain l' h' where n: "narrow l h a b = (l', h')" by (cases "narrow l h a b")
  have l': "l' = l + r * a div 32767" and h': "h' = l + r * b div 32767 - 1"
    using n by (simp_all add: narrow_def r_def)
  have nb: "l \<le> l'" "l' \<le> h'" "h' \<le> h" using narrow_bounds[OF lh(1,3,4,5) n] by auto
  have pos: "1 \<le> r * b div 32767"
  proof -
    have "32767 * 1 \<le> r * b" using r(1) lh(4) by (intro mult_le_mono) auto
    then show ?thesis by (simp add: Suc_le_eq div_greater_zero_iff)
  qed
  have sumb: "l + r * b div 32767 \<le> h + 1" using nb(3) pos by (simp add: h')
  have "unat (low + (high - low + 1) * sl div 0x7FFF) = l'"
    using unat_add_lem[of low "(high - low + 1) * sl div 0x7FFF"] nb lh(2)
    by (simp add: da l' l_def)
  then show "unat (fst (forward_range low high sl sh)) = fst (narrow (unat low) (unat high) (unat sl) (unat sh))"
    using n by (simp add: forward_range_def Let_def l_def h_def a_def b_def)
  have s1: "unat (low + (high - low + 1) * sh div 0x7FFF) = l + r * b div 32767"
    using unat_add_lem[of low "(high - low + 1) * sh div 0x7FFF"] sumb lh(2)
    by (simp add: db l_def)
  have "unat (low + (high - low + 1) * sh div 0x7FFF - 1) = h'"
  proof -
    have "(1 :: 32 word) \<le> low + (high - low + 1) * sh div 0x7FFF"
      using s1 pos by (simp add: word_le_nat_alt)
    then show ?thesis by (simp add: unat_sub s1 h')
  qed
  then show "unat (snd (forward_range low high sl sh)) = snd (narrow (unat low) (unat high) (unat sl) (unat sh))"
    using n by (simp add: forward_range_def Let_def l_def h_def a_def b_def)
qed


section \<open>The model's intervals\<close>

lemma unat_ucast_16_32: "unat (ucast x :: 32 word) = unat x" for x :: "16 word"
proof -
  have "unat x < 2 ^ 32" using unsigned_less[of x, where 'a = nat] by simp
  then show ?thesis by (simp add: unsigned_ucast_eq take_bit_nat_eq_self)
qed

lemma table_ok_mono:
  assumes "table_ok row" "i < j" "j \<le> 1025"
  shows "row ! i < row ! j"
  using assms(2,3)
proof (induction j)
  case 0 then show ?case by simp
next
  case (Suc j)
  have step: "row ! j < row ! Suc j" using assms(1) Suc.prems(2) by (simp add: table_ok_def)
  show ?case
  proof (cases "i = j")
    case True then show ?thesis using step by simp
  next
    case False
    then have "row ! i < row ! j" using Suc by simp
    then show ?thesis using step by simp
  qed
qed

lemma table_ok_le_max:
  assumes "table_ok row" "j \<le> 1025"
  shows "row ! j \<le> 0x7FFF"
proof (cases "j = 1025")
  case True then show ?thesis using assms(1) by (simp add: table_ok_def)
next
  case False
  then have "row ! j < row ! 1025" using assms by (intro table_ok_mono) auto
  then show ?thesis using assms(1) by (simp add: table_ok_def)
qed

lemma unat_mod_1025: "unat (x mod 1025) \<le> 1024" for x :: "32 word"
proof -
  have "unat (x mod 1025) = unat x mod 1025" by (simp add: unat_mod)
  then show ?thesis using mod_less_divisor[of 1025 "unat x"] by linarith
qed

lemma symbol_low_high_ok:
  assumes "model_ok m" "symbol_low_high m s = (sl, sh)"
  shows "sl < sh" "sh \<le> 0x7FFF"
proof -
  define loc :: "32 word" where
    "loc = (ucast s + of_nat NUM_SYMBOLS + scast (active_symbol_shift m)) mod of_nat NUM_SYMBOLS"
  define row where "row = ccft m ! unat (active_dist m)"
  have "unat (active_dist m) < 4" using assms(1) by (simp add: model_ok_def word_le_nat_alt)
  then have row: "table_ok row" using assms(1) by (simp add: model_ok_def row_def)
  have k: "unat loc \<le> 1024" using unat_mod_1025 by (simp add: loc_def NUM_SYMBOLS_def)
  then have k1: "unat (loc + 1) = unat loc + 1"
    using unat_add_lem[of loc 1] by simp
  have sl: "sl = row ! unat loc" and sh: "sh = row ! (unat loc + 1)"
    using assms(2) by (simp_all add: symbol_low_high_def Let_def loc_def[symmetric] row_def k1)
  show "sl < sh" unfolding sl sh using k by (intro table_ok_mono[OF row]) auto
  show "sh \<le> 0x7FFF" unfolding sh using k by (intro table_ok_le_max[OF row]) auto
qed

lemma update_state_ok: "model_ok m \<Longrightarrow> model_ok (update_state m s)"
proof -
  have "min x (3 :: 16 word) \<le> 3" for x by simp
  then show "model_ok m \<Longrightarrow> model_ok (update_state m s)"
    by (simp add: model_ok_def update_state_def Let_def NUM_DIST_def)
qed

lemma Model_init_ok: "erf_ok erf \<Longrightarrow> model_ok (Model_init erf)"
  using ccft_row_ok[of erf] by (simp add: model_ok_def Model_init_def NUM_DIST_def)


section \<open>One call of encode\<close>

lemma coder_inv_unat:
  "coder_inv low high \<longleftrightarrow> unat low < unat high \<and> unat high \<le> 131071 \<and> 32768 \<le> unat high - unat low"
  by (auto simp: coder_inv_def word_less_nat_alt word_le_nat_alt unat_sub)

lemma coder_step_result:
  assumes "l < h" "h \<le> 131071" "32768 \<le> h - l" "a < b" "b \<le> 32767"
    and "coder_step l h a b = (rs, l', h')"
  shows "l' < h' \<and> h' \<le> 131071 \<and> 32768 \<le> h' - l'"
proof -
  obtain l1 h1 where n: "narrow l h a b = (l1, h1)" by (cases "narrow l h a b")
  have nb: "l \<le> l1" "l1 \<le> h1" "h1 \<le> h" using narrow_bounds[OF assms(1,3,4,5) n] by auto
  have r: "renorm l1 h1 = (rs, l', h')" using assms(6) n by (simp add: coder_step_def)
  have "l' < 65536 \<and> 65536 \<le> h' \<and> h' \<le> 131071 \<and> (l' < 32768 \<or> 98304 \<le> h')"
    using renorm_result[OF r nb(2)] nb(3) assms(2) by simp
  then show ?thesis by auto
qed

lemma encode_step:
  assumes m: "model_ok (e_model e)" and c: "coder_inv (e_low e) (e_high e)"
    and pos: "outputBufferPos bs < 8"
    and slh: "symbol_low_high (e_model e) s = (sl, sh)"
    and cs: "coder_step (unat (e_low e)) (unat (e_high e)) (unat sl) (unat sh) = (rs, l', h')"
  shows "\<exists>e' bs'. encode s e bs = Some (e', bs')
        \<and> unat (e_low e') = l' \<and> unat (e_high e') = h'
        \<and> coder_inv (e_low e') (e_high e')
        \<and> e_pending_bits e' = pending_after (e_pending_bits e) rs
        \<and> e_model e' = e_model e
        \<and> bits_written e' = bits_written e + length (emitted (e_pending_bits e) rs)
        \<and> obs_bits bs' = obs_bits bs @ emitted (e_pending_bits e) rs \<and> outputBufferPos bs' < 8"
proof -
  define l h a b where "l = unat (e_low e)" and "h = unat (e_high e)" and "a = unat sl" and "b = unat sh"
  have lh: "l < h" "h \<le> 131071" "32768 \<le> h - l"
    using c by (simp_all add: coder_inv_unat l_def h_def)
  have ab: "a < b" "b \<le> 32767"
    using symbol_low_high_ok[OF m slh] by (simp_all add: a_def b_def word_less_nat_alt word_le_nat_alt)
  obtain l1 h1 where n: "narrow l h a b = (l1, h1)" by (cases "narrow l h a b")
  have nb: "l \<le> l1" "l1 \<le> h1" "h1 \<le> h" using narrow_bounds[OF lh(1,3) ab n] by auto
  have r: "renorm l1 h1 = (rs, l', h')" using cs n by (simp add: coder_step_def l_def h_def a_def b_def)
  define low1 high1 where "low1 = fst (forward_range (e_low e) (e_high e) (ucast sl) (ucast sh))"
    and "high1 = snd (forward_range (e_low e) (e_high e) (ucast sl) (ucast sh))"
  have u1: "unat low1 = l1" "unat high1 = h1"
    using forward_range_unat[of "e_low e" "e_high e" "ucast sl" "ucast sh"] lh ab n
    by (simp_all add: low1_def high1_def unat_ucast_16_32 l_def h_def a_def b_def)
  define e1 where "e1 = e\<lparr>symbols_written := symbols_written e + 1,
              e_symbol_low := sl, e_symbol_high := sh, e_low := low1, e_high := high1\<rparr>"
  have enc: "encode s e bs = encode_loop e1 bs"
    by (simp add: encode_def slh e1_def low1_def high1_def case_prod_beta)
  have "encode_loop_to e1 bs rs l' h'"
    using encode_loop_renorm_aux[of l1 h1 l' h', THEN spec, of e1, THEN spec, of bs, THEN spec, of rs]
      u1 r nb lh(2) pos by (simp add: e1_def)
  then obtain e' bs' where *: "encode_loop e1 bs = Some (e', bs')"
        "unat (e_low e') = l'" "unat (e_high e') = h'"
        "e_pending_bits e' = pending_after (e_pending_bits e1) rs"
        "e_model e' = e_model e1"
        "bits_written e' = bits_written e1 + length (emitted (e_pending_bits e1) rs)"
        "obs_bits bs' = obs_bits bs @ emitted (e_pending_bits e1) rs" "outputBufferPos bs' < 8"
    unfolding encode_loop_to_def by blast
  have inv: "coder_inv (e_low e') (e_high e')"
    using coder_step_result[OF lh ab] cs *(2,3)
    by (simp add: coder_inv_unat l_def h_def a_def b_def)
  show ?thesis
    by (rule exI[of _ e'], rule exI[of _ bs']) (use * inv enc in \<open>simp add: e1_def\<close>)
qed


section \<open>The model state\<close>








section \<open>Update of the model state\<close>

lemma fmul_le_int: "a * b \<le> of_int n \<Longrightarrow> \<bar>n\<bar> < 2 ^ 53 \<Longrightarrow> fmul a b \<le> of_int n"
  unfolding fmul_def by (rule rnd_le_int)

lemma alpha_bounds: "2965 / 4096 \<le> alpha" "alpha \<le> 2974 / 4096"
  unfolding alpha_def
  using rnd_ge_dyadic[of 2965 12 "725 / 1000"] rnd_le_dyadic[of "725 / 1000" 2974 12] by simp_all

lemma beta_bounds: "716 / 4096 \<le> beta" "beta \<le> 717 / 4096"
  unfolding beta_def
  using rnd_ge_dyadic[of 716 12 "175 / 1000"] rnd_le_dyadic[of "175 / 1000" 717 12] by simp_all

lemma ltv_value: "ltv = 15 / 2"
  unfolding ltv_def using rnd_dyadic[of 15 1] by simp

lemma one_minus_alpha_beta: "405 / 4096 \<le> fsub (fsub 1 alpha) beta" "fsub (fsub 1 alpha) beta \<le> 415 / 4096"
proof -
  have a0: "1122 / 4096 \<le> fsub 1 alpha"
    unfolding fsub_def using alpha_bounds rnd_ge_dyadic[of 1122 12 "1 - alpha"] by simp
  have a1: "fsub 1 alpha \<le> 1131 / 4096"
    unfolding fsub_def using alpha_bounds rnd_le_dyadic[of "1 - alpha" 1131 12] by simp
  show "405 / 4096 \<le> fsub (fsub 1 alpha) beta"
    unfolding fsub_def[of _ beta] using a0 beta_bounds rnd_ge_dyadic[of 405 12 "fsub 1 alpha - beta"] by simp
  show "fsub (fsub 1 alpha) beta \<le> 415 / 4096"
    unfolding fsub_def[of _ beta] using a1 beta_bounds rnd_le_dyadic[of "fsub 1 alpha - beta" 415 12] by simp
qed

lemma omega_bounds: "74 \<le> fdiv ltv (fsub (fsub 1 alpha) beta)" "fdiv ltv (fsub (fsub 1 alpha) beta) \<le> 76"
proof -
  define d where "d = fsub (fsub 1 alpha) beta"
  have d: "405 / 4096 \<le> d" "d \<le> 415 / 4096" using one_minus_alpha_beta by (simp_all add: d_def)
  then have dpos: "0 < d" by linarith
  have "74 * d \<le> 15 / 2" using d by linarith
  then have "of_int 74 \<le> ltv / d" using dpos by (simp add: ltv_value field_simps)
  then show "74 \<le> fdiv ltv (fsub (fsub 1 alpha) beta)"
    unfolding d_def[symmetric] fdiv_def using rnd_ge_int[of 74 "ltv / d"] by simp
  have "15 / 2 \<le> 76 * d" using d by linarith
  then have "ltv / d \<le> of_int 76" using dpos by (simp add: ltv_value field_simps)
  then show "fdiv ltv (fsub (fsub 1 alpha) beta) \<le> 76"
    unfolding d_def[symmetric] fdiv_def using rnd_le_int[of "ltv / d" 76] by simp
qed

lemma update_state_stdev:
  "outlier_counter (update_state m s) = 0 \<Longrightarrow>
   stdev (update_state m s)
     = fsqrt (fadd (fadd (omega m) (fmul (fmul alpha (stdev m)) (stdev m)))
                   (fmul (fmul beta (fsub (real (unat s)) (mean m))) (fsub (real (unat s)) (mean m))))"
  by (auto simp: update_state_def Let_def split: if_splits)

lemma update_state_omega [simp]: "omega (update_state m s) = omega m"
  by (simp add: update_state_def Let_def)

lemma foldl_update_state_omega [simp]: "omega (foldl update_state m ss) = omega m"
  by (induction ss arbitrary: m) simp_all

text \<open>
  Claim C3, as amended. In every model state reached from the constructor and every
  update that is not frozen (the outlier counter is 0 after it), the new \<open>stdev\<close> is
  \<open>sqrt (omega + alpha * stdev * stdev + beta * ds * ds)\<close> in double arithmetic, where
  \<open>ds\<close> is the deviation \<open>s - mean\<close> before the update, \<open>alpha = 0.725\<close>,
  \<open>beta = 0.175\<close> and \<open>omega = ltv / (1 - alpha - beta)\<close> with \<open>ltv = 7.5\<close>, a value
  between 74 and 76 (75 up to rounding).
\<close>

theorem stdev_update:
  "let m = foldl update_state (Model_init erf) ss;
       ds = fsub (real (unat s)) (mean m)
   in omega m = fdiv ltv (fsub (fsub 1 alpha) beta)
    \<and> 74 \<le> omega m \<and> omega m \<le> 76
    \<and> (outlier_counter (update_state m s) = 0 \<longrightarrow>
         stdev (update_state m s)
           = fsqrt (fadd (fadd (omega m) (fmul (fmul alpha (stdev m)) (stdev m)))
                         (fmul (fmul beta ds) ds)))"
proof -
  define m where "m = foldl update_state (Model_init erf) ss"
  have o: "omega m = fdiv ltv (fsub (fsub 1 alpha) beta)"
    by (simp add: m_def) (simp add: Model_init_def)
  have b: "74 \<le> omega m" "omega m \<le> 76" unfolding o using omega_bounds by auto
  show ?thesis
    unfolding Let_def m_def[symmetric] using o b update_state_stdev[of m s] by blast
qed

lemma outlier_level_le: "outlier_level \<le> 9"
  unfolding outlier_level_def using rnd_le_int[of "84 / 10" 9] by simp

lemma outlier_level_ge: "8 \<le> outlier_level"
  unfolding outlier_level_def using rnd_ge_int[of 8 "84 / 10"] by simp

lemma init_threshold: "fmul outlier_level 8 \<le> 72" "0 \<le> fmul outlier_level 8"
proof -
  have "outlier_level * 8 \<le> of_int 72" using outlier_level_le by simp
  then show "fmul outlier_level 8 \<le> 72"
    unfolding fmul_def using rnd_le_int[of "outlier_level * 8" 72] by simp
  show "0 \<le> fmul outlier_level 8" using outlier_level_ge by (intro fmul_nonneg) auto
qed

lemma fsub_ints: "\<bar>a - b\<bar> < 2 ^ 53 \<Longrightarrow> fsub (of_int a) (of_int b) = of_int (a - b)"
  unfolding fsub_def using rnd_of_int[of "a - b"] by simp

lemma init_not_outlier_511: "outlier_counter (update_state (Model_init erf) 511) = 0"
proof -
  have "fsub (real (unat (511 :: 16 word))) 511 = 0"
    using fsub_ints[of 511 511] by simp
  then show ?thesis
    using init_threshold(2) by (simp add: update_state_def Let_def Model_init_def)
qed

theorem stdev_update_witness:
  "outlier_counter (update_state (foldl update_state (Model_init erf_tanh) []) 511) = 0
   \<and> stdev (update_state (Model_init erf_tanh) 511)
       = fsqrt (fadd (fadd (fdiv ltv (fsub (fsub 1 alpha) beta)) (fmul (fmul alpha 8) 8))
                     (fmul (fmul beta (fsub 511 511)) (fsub 511 511)))"
  using stdev_update[of erf_tanh "[]" 511] init_not_outlier_511[of erf_tanh]
  by (simp add: Let_def) (simp add: Model_init_def)


lemma sqrt_49: "sqrt 49 = 7"
  using real_sqrt_abs[of 7] by simp

lemma sqrt_64: "sqrt 64 = 8"
  using real_sqrt_abs[of 8] by simp

lemma fsqrt_ge_8: "64 \<le> x \<Longrightarrow> 8 \<le> fsqrt x"
proof -
  assume "64 \<le> x"
  then have "sqrt 64 \<le> sqrt x" by (simp only: real_sqrt_le_iff)
  then have "of_int 8 \<le> sqrt x" by (simp add: sqrt_64)
  then show ?thesis unfolding fsqrt_def using rnd_ge_int[of 8 "sqrt x"] by simp
qed

lemma fsqrt_le_7: "x \<le> 49 \<Longrightarrow> fsqrt x \<le> 7"
proof -
  assume "x \<le> 49"
  then have "sqrt x \<le> sqrt 49" by (simp only: real_sqrt_le_iff)
  then have "sqrt x \<le> of_int 7" by (simp add: sqrt_49)
  then show ?thesis unfolding fsqrt_def using rnd_le_int[of "sqrt x" 7] by simp
qed

lemma alpha_term_bounds: "0 \<le> fmul (fmul alpha 8) 8" "fmul (fmul alpha 8) 8 \<le> 48"
proof -
  have a: "0 \<le> alpha" "alpha \<le> 3 / 4" using alpha_bounds by simp_all
  have m0: "0 \<le> fmul alpha 8" using a by (intro fmul_nonneg) auto
  have "alpha * 8 \<le> of_int 6" using a by simp
  then have m1: "fmul alpha 8 \<le> 6" unfolding fmul_def using rnd_le_int[of "alpha * 8" 6] by simp
  show "0 \<le> fmul (fmul alpha 8) 8" by (rule fmul_nonneg) (use m0 in auto)
  show "fmul (fmul alpha 8) 8 \<le> 48"
    using fmul_le_int[of "fmul alpha 8" 8 48] m1 by simp
qed

lemma beta_term_zero: "fmul (fmul beta 0) 0 = 0"
  by (simp add: fmul_def)

lemma init_stdev_511:
  "stdev (update_state (Model_init erf) 511)
     = fsqrt (fadd (fadd (fdiv ltv (fsub (fsub 1 alpha) beta)) (fmul (fmul alpha 8) 8)) 0)"
proof -
  have z: "fsub (real (unat (511 :: 16 word))) 511 = 0"
    using fsub_ints[of 511 511] by simp
  have "stdev (update_state (Model_init erf) 511)
     = fsqrt (fadd (fadd (omega (Model_init erf)) (fmul (fmul alpha (stdev (Model_init erf))) (stdev (Model_init erf))))
                   (fmul (fmul beta (fsub (real (unat (511 :: 16 word))) (mean (Model_init erf))))
                         (fsub (real (unat (511 :: 16 word))) (mean (Model_init erf)))))"
    by (rule update_state_stdev[OF init_not_outlier_511])
  also have "\<dots> = fsqrt (fadd (fadd (fdiv ltv (fsub (fsub 1 alpha) beta)) (fmul (fmul alpha 8) 8)) 0)"
    using z by (simp add: Model_init_def beta_term_zero del: of_nat_unat)
  finally show ?thesis .
qed

text \<open>
  Claim C3 as stated fails. The first update of the initial model with symbol 511 is not
  frozen, and the new \<open>stdev\<close> is at least 8; with \<open>omega = 0.75\<close> the claimed value
  \<open>sqrt (0.75 + 0.725 * 8^2 + 0.175 * 0^2)\<close> is below 7, in exact arithmetic as well as
  in double arithmetic with \<open>omega = ltv * (1 - alpha - beta)\<close>.
\<close>

theorem stdev_update_counterexample:
  "outlier_counter (update_state (Model_init erf_tanh) 511) = 0
   \<and> stdev (update_state (Model_init erf_tanh) 511)
       \<noteq> sqrt (3 / 4 + 725 / 1000 * 8 ^ 2 + 175 / 1000 * 0 ^ 2)
   \<and> stdev (update_state (Model_init erf_tanh) 511)
       \<noteq> fsqrt (fadd (fadd (fmul ltv (fsub (fsub 1 alpha) beta)) (fmul (fmul alpha 8) 8))
                      (fmul (fmul beta (fsub 511 511)) (fsub 511 511)))"
proof -
  define A where "A = fdiv ltv (fsub (fsub 1 alpha) beta) + fmul (fmul alpha 8) 8"
  have "of_int 74 \<le> A"
    using omega_bounds(1) alpha_term_bounds(1) by (simp add: A_def)
  then have "74 \<le> rnd A" using rnd_ge_int[of 74 A] by simp
  then have "of_int 64 \<le> rnd A + 0" by simp
  then have "64 \<le> rnd (rnd A + 0)" using rnd_ge_int[of 64 "rnd A + 0"] by simp
  then have "64 \<le> fadd (fadd (fdiv ltv (fsub (fsub 1 alpha) beta)) (fmul (fmul alpha 8) 8)) 0"
    by (simp add: fadd_def A_def)
  then have big: "8 \<le> stdev (update_state (Model_init erf_tanh) 511)"
    unfolding init_stdev_511 by (rule fsqrt_ge_8)
  have "sqrt (3 / 4 + 725 / 1000 * 8 ^ 2 + 175 / 1000 * 0 ^ 2) \<le> sqrt 49"
    by (simp only: real_sqrt_le_iff) simp
  then have small1: "sqrt (3 / 4 + 725 / 1000 * 8 ^ 2 + 175 / 1000 * 0 ^ 2) \<le> 7"
    by (simp add: sqrt_49)
  have d: "0 \<le> fsub (fsub 1 alpha) beta" "fsub (fsub 1 alpha) beta \<le> 415 / 4096"
    using one_minus_alpha_beta by simp_all
  have "ltv * fsub (fsub 1 alpha) beta \<le> of_int 1"
    using d mult_left_mono[of "fsub (fsub 1 alpha) beta" "415 / 4096" ltv] by (simp add: ltv_value)
  then have w: "fmul ltv (fsub (fsub 1 alpha) beta) \<le> 1"
    unfolding fmul_def using rnd_le_int[of "ltv * fsub (fsub 1 alpha) beta" 1] by simp
  define B where "B = fmul ltv (fsub (fsub 1 alpha) beta) + fmul (fmul alpha 8) 8"
  have "B \<le> of_int 49"
    using w alpha_term_bounds(2) by (simp add: B_def)
  then have "rnd B \<le> 49" using rnd_le_int[of B 49] by simp
  then have "rnd (rnd B + 0) \<le> 49" by simp
  moreover have "fsub (511 :: real) 511 = 0" by (simp add: fsub_def)
  ultimately have "fadd (fadd (fmul ltv (fsub (fsub 1 alpha) beta)) (fmul (fmul alpha 8) 8))
                      (fmul (fmul beta (fsub 511 511)) (fsub 511 511)) \<le> 49"
    by (simp add: beta_term_zero fadd_def B_def)
  then have small2: "fsqrt (fadd (fadd (fmul ltv (fsub (fsub 1 alpha) beta)) (fmul (fmul alpha 8) 8))
                      (fmul (fmul beta (fsub 511 511)) (fsub 511 511))) \<le> 7"
    by (rule fsqrt_le_7)
  show ?thesis using big small1 small2 init_not_outlier_511[of erf_tanh] by linarith
qed


section \<open>Outliers\<close>

lemma word16_less_3: "x < 3 \<Longrightarrow> x = 0 \<or> x = 1 \<or> x = 2" for x :: "16 word"
  by unat_arith

lemma update_state_counter_le: "outlier_counter (update_state m s) \<le> 3"
  by (auto simp: update_state_def Let_def not_less)

lemma active_dist_levels:
  "min (of_nat (lower_bound std_levels x)) (of_nat (NUM_DIST - 1))
     = (if x \<le> 16 then 0 else if x \<le> 18 then 1 else if x \<le> 20 then 2 else 3 :: 16 word)"
  by (simp add: lower_bound_def std_levels_def NUM_DIST_def not_le)

lemma counter_overflow: "3 \<le> c \<Longrightarrow> 3 < c + 1 \<or> c + 1 = 0" for c :: "16 word"
  by unat_arith

text \<open>
  Claim C9. When \<open>update_state\<close> observes an outlier
  (\<open>outlier_level * stdev < |s - mean|\<close>) and the counter, after its increment, does not
  exceed 3, then \<open>mean\<close>, \<open>stdev\<close>, \<open>active_dist\<close> and \<open>active_symbol_shift\<close> are
  unchanged and the counter has grown by one. At the fourth outlier in a row (the counter
  is 3 or more before the call) the counter is reset to 0 and the adaptive update takes
  place: \<open>mean\<close>, \<open>stdev\<close>, \<open>active_dist\<close> (the index of the first level of
  \<open>{16, 18, 20, 22}\<close> that is not below the new \<open>stdev\<close>, at most 3) and
  \<open>active_symbol_shift\<close> get their new values. A symbol that is not an outlier resets
  the counter to 0 and triggers the same update, which is what makes the count one of
  consecutive outliers. The counter never exceeds 3 after an update.
\<close>

theorem outlier_freeze:
  "let x = real (unat s);
       ds = fsub x (mean m);
       m' = update_state m s;
       outlier = (fmul outlier_level (stdev m) < \<bar>ds\<bar>);
       frozen = (outlier_counter m' = outlier_counter m + 1
                 \<and> mean m' = mean m \<and> stdev m' = stdev m
                 \<and> active_dist m' = active_dist m
                 \<and> active_symbol_shift m' = active_symbol_shift m);
       adapted = (outlier_counter m' = 0
                 \<and> mean m' = fadd (fmul ma (mean m)) (fmul (fsub 1 ma) x)
                 \<and> stdev m' = fsqrt (fadd (fadd (omega m) (fmul (fmul alpha (stdev m)) (stdev m)))
                                          (fmul (fmul beta ds) ds))
                 \<and> active_dist m' = min (of_nat (lower_bound std_levels (stdev m'))) (of_nat (NUM_DIST - 1))
                 \<and> active_dist m' = (if stdev m' \<le> 16 then 0 else if stdev m' \<le> 18 then 1
                                      else if stdev m' \<le> 20 then 2 else 3)
                 \<and> active_symbol_shift m'
                     = 511 - double_to_u16 (fadd (mean m') (fmul (fsub x (mean m')) mrr)))
   in outlier_counter m' \<le> 3
    \<and> (outlier \<longrightarrow> (outlier_counter m < 3 \<longrightarrow> frozen) \<and> (3 \<le> outlier_counter m \<longrightarrow> adapted))
    \<and> (\<not> outlier \<longrightarrow> adapted)"
proof -
  define x where "x = real (unat s)"
  define ds where "ds = fsub x (mean m)"
  define m' where "m' = update_state m s"
  define adapted where "adapted \<longleftrightarrow> outlier_counter m' = 0
                 \<and> mean m' = fadd (fmul ma (mean m)) (fmul (fsub 1 ma) x)
                 \<and> stdev m' = fsqrt (fadd (fadd (omega m) (fmul (fmul alpha (stdev m)) (stdev m)))
                                          (fmul (fmul beta ds) ds))
                 \<and> active_dist m' = min (of_nat (lower_bound std_levels (stdev m'))) (of_nat (NUM_DIST - 1))
                 \<and> active_dist m' = (if stdev m' \<le> 16 then 0 else if stdev m' \<le> 18 then 1
                                      else if stdev m' \<le> 20 then 2 else 3)
                 \<and> active_symbol_shift m'
                     = 511 - double_to_u16 (fadd (mean m') (fmul (fsub x (mean m')) mrr))"
  have frozen: "outlier_counter m' = outlier_counter m + 1
        \<and> mean m' = mean m \<and> stdev m' = stdev m
        \<and> active_dist m' = active_dist m
        \<and> active_symbol_shift m' = active_symbol_shift m"
    if o: "fmul outlier_level (stdev m) < \<bar>ds\<bar>" and c: "outlier_counter m < 3"
  proof -
    have "outlier_counter m = 0 \<or> outlier_counter m = 1 \<or> outlier_counter m = 2"
      using c by (rule word16_less_3)
    then show ?thesis using o
      unfolding m'_def ds_def x_def by (auto simp: update_state_def Let_def simp del: of_nat_unat)
  qed
  have upd: adapted
    if z: "(if fmul outlier_level (stdev m) < \<bar>ds\<bar> then outlier_counter m + 1 else 0) = 0
           \<or> 3 < (if fmul outlier_level (stdev m) < \<bar>ds\<bar> then outlier_counter m + 1 else 0)"
  proof -
    have a: "active_dist m' = min (of_nat (lower_bound std_levels (stdev m'))) (of_nat (NUM_DIST - 1))"
      and r: "outlier_counter m' = 0
                 \<and> mean m' = fadd (fmul ma (mean m)) (fmul (fsub 1 ma) x)
                 \<and> stdev m' = fsqrt (fadd (fadd (omega m) (fmul (fmul alpha (stdev m)) (stdev m)))
                                          (fmul (fmul beta ds) ds))
                 \<and> active_symbol_shift m'
                     = 511 - double_to_u16 (fadd (mean m') (fmul (fsub x (mean m')) mrr))"
      using z unfolding m'_def ds_def x_def
      by (auto simp: update_state_def Let_def simp del: of_nat_unat)
    show ?thesis unfolding adapted_def using a r active_dist_levels[of "stdev m'"] by simp
  qed
  have fourth: adapted if "fmul outlier_level (stdev m) < \<bar>ds\<bar>" "3 \<le> outlier_counter m"
    using that counter_overflow[of "outlier_counter m"] by (intro upd) auto
  have calm: adapted if "\<not> fmul outlier_level (stdev m) < \<bar>ds\<bar>"
    using that by (intro upd) auto
  have "outlier_counter m' \<le> 3" unfolding m'_def by (rule update_state_counter_le)
  then show ?thesis
    unfolding Let_def x_def[symmetric] ds_def[symmetric] m'_def[symmetric] adapted_def[symmetric]
    using frozen fourth calm by blast
qed

lemma fsqrt_ge_int: "0 \<le> n \<Longrightarrow> \<bar>n\<bar> < 2 ^ 53 \<Longrightarrow> of_int (n * n) \<le> x \<Longrightarrow> of_int n \<le> fsqrt x"
proof -
  assume n: "0 \<le> n" "\<bar>n\<bar> < 2 ^ 53" and x: "of_int (n * n) \<le> x"
  have "sqrt (of_int n * of_int n) \<le> sqrt x" using x by (simp only: real_sqrt_le_iff) simp
  then have "of_int n \<le> sqrt x" using n(1) by simp
  then show ?thesis unfolding fsqrt_def using rnd_ge_int[of n "sqrt x"] n(2) by simp
qed

lemma fsqrt_le_int: "0 \<le> n \<Longrightarrow> \<bar>n\<bar> < 2 ^ 53 \<Longrightarrow> x \<le> of_int (n * n) \<Longrightarrow> fsqrt x \<le> of_int n"
proof -
  assume n: "0 \<le> n" "\<bar>n\<bar> < 2 ^ 53" and x: "x \<le> of_int (n * n)"
  have "sqrt x \<le> sqrt (of_int n * of_int n)" using x by (simp only: real_sqrt_le_iff) simp
  then have "sqrt x \<le> of_int n" using n(1) by simp
  then show ?thesis unfolding fsqrt_def using rnd_le_int[of "sqrt x" n] n(2) by simp
qed

text \<open>The new \<open>stdev\<close> of the initial model: at most 16 for the symbol 511, more than 20 for
  the symbol 1023.\<close>

lemma init_stdev_511_le: 
  "fsqrt (fadd (fadd (fdiv ltv (fsub (fsub 1 alpha) beta)) (fmul (fmul alpha 8) 8)) 0) \<le> 16"
proof -
  define A where "A = fdiv ltv (fsub (fsub 1 alpha) beta) + fmul (fmul alpha 8) 8"
  have "A \<le> of_int 124" using omega_bounds(2) alpha_term_bounds(2) by (simp add: A_def)
  then have "rnd A \<le> 124" using rnd_le_int[of A 124] by simp
  then have "rnd (rnd A + 0) \<le> of_int (16 * 16)" by simp
  then have "fsqrt (rnd (rnd A + 0)) \<le> of_int 16" by (intro fsqrt_le_int) simp_all
  then show ?thesis by (simp add: fadd_def A_def)
qed

lemma beta_term_512: "32768 \<le> fmul (fmul beta 512) 512"
proof -
  define b where "b = fmul beta 512"
  have "of_int 64 \<le> beta * 512" using beta_bounds(1) by simp
  then have "64 \<le> b" unfolding b_def fmul_def using rnd_ge_int[of 64 "beta * 512"] by simp
  then have "of_int 32768 \<le> b * 512" by simp
  then have "32768 \<le> fmul b 512" unfolding fmul_def using rnd_ge_int[of 32768 "b * 512"] by simp
  then show ?thesis by (simp add: b_def)
qed

lemma init_stdev_1023_ge:
  "22 \<le> fsqrt (fadd (fadd (fdiv ltv (fsub (fsub 1 alpha) beta)) (fmul (fmul alpha 8) 8))
                      (fmul (fmul beta 512) 512))"
proof -
  define A where "A = fdiv ltv (fsub (fsub 1 alpha) beta) + fmul (fmul alpha 8) 8"
  have "of_int 0 \<le> A" using omega_bounds(1) alpha_term_bounds(1) by (simp add: A_def)
  then have "0 \<le> rnd A" using rnd_ge_int[of 0 A] by simp
  then have "of_int 32768 \<le> rnd A + fmul (fmul beta 512) 512" using beta_term_512 by simp
  then have "32768 \<le> rnd (rnd A + fmul (fmul beta 512) 512)"
    using rnd_ge_int[of 32768 "rnd A + fmul (fmul beta 512) 512"] by simp
  then have "of_int (22 * 22) \<le> rnd (rnd A + fmul (fmul beta 512) 512)" by simp
  then have "of_int 22 \<le> fsqrt (rnd (rnd A + fmul (fmul beta 512) 512))"
    by (intro fsqrt_ge_int) simp_all
  then show ?thesis by (simp add: fadd_def A_def)
qed

lemma fsub_1023_511: "fsub 1023 511 = 512"
  using fsub_ints[of 1023 511] by simp

lemma fsub_511_511: "fsub 511 511 = 0"
  by (simp add: fsub_def)

lemma init_outlier_1023:
  "fmul outlier_level (stdev (Model_init erf)) < \<bar>fsub (real (unat (1023 :: 16 word))) (mean (Model_init erf))\<bar>"
proof -
  have "fsub (real (unat (1023 :: 16 word))) 511 = 512"
    using fsub_ints[of 1023 511] by simp
  then show ?thesis using init_threshold(1) by (simp add: Model_init_def del: of_nat_unat)
qed

theorem outlier_freeze_witness:
  "fmul outlier_level (stdev (Model_init erf_tanh))
     < \<bar>fsub (real (unat (1023 :: 16 word))) (mean (Model_init erf_tanh))\<bar>
   \<and> outlier_counter (Model_init erf_tanh) < 3
   \<and> outlier_counter (update_state (Model_init erf_tanh) 1023) = 1
   \<and> mean (update_state (Model_init erf_tanh) 1023) = 511
   \<and> stdev (update_state (Model_init erf_tanh) 1023) = 8
   \<and> active_dist (update_state (Model_init erf_tanh) 1023) = 0
   \<and> active_symbol_shift (update_state (Model_init erf_tanh) 1023) = 0
   \<and> 3 \<le> outlier_counter ((Model_init erf_tanh)\<lparr>outlier_counter := 3\<rparr>)
   \<and> outlier_counter (update_state ((Model_init erf_tanh)\<lparr>outlier_counter := 3\<rparr>) 1023) = 0
   \<and> stdev (update_state ((Model_init erf_tanh)\<lparr>outlier_counter := 3\<rparr>) 1023)
       = fsqrt (fadd (fadd (fdiv ltv (fsub (fsub 1 alpha) beta)) (fmul (fmul alpha 8) 8))
                     (fmul (fmul beta 512) 512))
   \<and> active_dist (update_state ((Model_init erf_tanh)\<lparr>outlier_counter := 3\<rparr>) 1023) = 3
   \<and> \<not> fmul outlier_level (stdev ((Model_init erf_tanh)\<lparr>outlier_counter := 2\<rparr>))
         < \<bar>fsub (real (unat (511 :: 16 word))) (mean ((Model_init erf_tanh)\<lparr>outlier_counter := 2\<rparr>))\<bar>
   \<and> outlier_counter (update_state ((Model_init erf_tanh)\<lparr>outlier_counter := 2\<rparr>) 511) = 0
   \<and> stdev (update_state ((Model_init erf_tanh)\<lparr>outlier_counter := 2\<rparr>) 511)
       = fsqrt (fadd (fadd (fdiv ltv (fsub (fsub 1 alpha) beta)) (fmul (fmul alpha 8) 8)) 0)
   \<and> active_dist (update_state ((Model_init erf_tanh)\<lparr>outlier_counter := 2\<rparr>) 511) = 0"
proof -
  define m0 where "m0 = Model_init erf_tanh"
  define m3 where "m3 = m0\<lparr>outlier_counter := 3\<rparr>"
  define m2 where "m2 = m0\<lparr>outlier_counter := 2\<rparr>"
  have f: "stdev m0 = 8" "mean m0 = 511" "outlier_counter m0 = 0" "active_dist m0 = 0"
    "active_symbol_shift m0 = 0" "omega m0 = fdiv ltv (fsub (fsub 1 alpha) beta)"
    by (simp_all add: m0_def Model_init_def)
  have f3: "stdev m3 = 8" "mean m3 = 511" "outlier_counter m3 = 3"
    "omega m3 = fdiv ltv (fsub (fsub 1 alpha) beta)"
    by (simp_all add: m3_def f)
  have f2: "stdev m2 = 8" "mean m2 = 511" "outlier_counter m2 = 2"
    "omega m2 = fdiv ltv (fsub (fsub 1 alpha) beta)"
    by (simp_all add: m2_def f)
  have x: "real (unat (1023 :: 16 word)) = 1023" "real (unat (511 :: 16 word)) = 511" by simp_all
  have o: "fmul outlier_level (stdev m0) < \<bar>fsub (real (unat (1023 :: 16 word))) (mean m0)\<bar>"
    unfolding m0_def by (rule init_outlier_1023)
  have o3: "fmul outlier_level (stdev m3) < \<bar>fsub (real (unat (1023 :: 16 word))) (mean m3)\<bar>"
    using o by (simp only: f f3)
  have n: "\<not> fmul outlier_level (stdev m2) < \<bar>fsub (real (unat (511 :: 16 word))) (mean m2)\<bar>"
    using init_threshold(2) by (simp only: f2 x fsub_511_511 abs_zero not_less)
  have c0: "outlier_counter m0 < 3" by (simp add: f)
  have c3: "3 \<le> outlier_counter m3" by (simp add: f3)
  have 1: "outlier_counter (update_state m0 1023) = outlier_counter m0 + 1
     \<and> mean (update_state m0 1023) = mean m0 \<and> stdev (update_state m0 1023) = stdev m0
     \<and> active_dist (update_state m0 1023) = active_dist m0
     \<and> active_symbol_shift (update_state m0 1023) = active_symbol_shift m0"
    using outlier_freeze[of 1023 m0, unfolded Let_def] o c0 by blast
  have 2: "outlier_counter (update_state m3 1023) = 0"
    "stdev (update_state m3 1023)
       = fsqrt (fadd (fadd (omega m3) (fmul (fmul alpha (stdev m3)) (stdev m3)))
                     (fmul (fmul beta (fsub (real (unat (1023 :: 16 word))) (mean m3)))
                           (fsub (real (unat (1023 :: 16 word))) (mean m3))))"
    "active_dist (update_state m3 1023)
       = (if stdev (update_state m3 1023) \<le> 16 then 0 else if stdev (update_state m3 1023) \<le> 18 then 1
          else if stdev (update_state m3 1023) \<le> 20 then 2 else 3)"
    using outlier_freeze[of 1023 m3, unfolded Let_def] o3 c3 by blast+
  have s3: "stdev (update_state m3 1023)
       = fsqrt (fadd (fadd (fdiv ltv (fsub (fsub 1 alpha) beta)) (fmul (fmul alpha 8) 8))
                     (fmul (fmul beta 512) 512))"
    unfolding 2(2) by (simp only: f3 x fsub_1023_511)
  have d3: "active_dist (update_state m3 1023) = 3"
    using 2(3) init_stdev_1023_ge unfolding s3[symmetric] by simp
  have 3: "outlier_counter (update_state m2 511) = 0"
    "stdev (update_state m2 511)
       = fsqrt (fadd (fadd (omega m2) (fmul (fmul alpha (stdev m2)) (stdev m2)))
                     (fmul (fmul beta (fsub (real (unat (511 :: 16 word))) (mean m2)))
                           (fsub (real (unat (511 :: 16 word))) (mean m2))))"
    "active_dist (update_state m2 511)
       = (if stdev (update_state m2 511) \<le> 16 then 0 else if stdev (update_state m2 511) \<le> 18 then 1
          else if stdev (update_state m2 511) \<le> 20 then 2 else 3)"
    using outlier_freeze[of 511 m2, unfolded Let_def] n by blast+
  have s2: "stdev (update_state m2 511)
       = fsqrt (fadd (fadd (fdiv ltv (fsub (fsub 1 alpha) beta)) (fmul (fmul alpha 8) 8)) 0)"
    unfolding 3(2) by (simp only: f2 x fsub_511_511 beta_term_zero)
  have d2: "active_dist (update_state m2 511) = 0"
    using 3(3) init_stdev_511_le unfolding s2[symmetric] by simp
  show ?thesis
    unfolding m0_def[symmetric] m3_def[symmetric] m2_def[symmetric]
    using o n c0 c3 1 2(1) s3 d3 3(1) s2 d2 by (simp only: f) simp
qed

section \<open>The model of the encoder\<close>

declare encode_samples.simps [simp del]

lemma encode_samples_run: "encode_samples inp e bs = encode_run (symbols_of inp) e bs"
proof (induction inp e bs rule: encode_samples.induct)
  case (1 inp e bs)
  show ?case
  proof (cases "neuralink_read_symbol_from_stream inp")
    case None
    then have "symbols_of inp = []" by (cases inp rule: symbols_of.cases) auto
    then show ?thesis using None by (subst encode_samples.simps) simp
  next
    case rd: (Some x)
    obtain symbol rest where x: "x = (symbol, rest)" by (cases x)
    have so: "symbols_of inp = symbol # symbols_of rest"
      using rd x by (cases inp rule: symbols_of.cases) auto
    show ?thesis
    proof (cases "encode symbol e bs")
      case None
      show ?thesis by (subst encode_samples.simps) (simp add: rd x None so)
    next
      case en: (Some r)
      obtain e1 bs1 where r: "r = (e1, bs1)" by (cases r)
      have ih: "encode_samples rest (e1\<lparr>e_model := update_state (e_model e1) symbol\<rparr>) bs1
                = encode_run (symbols_of rest) (e1\<lparr>e_model := update_state (e_model e1) symbol\<rparr>) bs1"
        by (rule "1.IH"[OF rd x[symmetric] en r[symmetric]])
      show ?thesis by (subst encode_samples.simps) (simp add: rd x en r so ih)
    qed
  qed
qed

lemma encode_model:
  assumes "model_ok (e_model e)" "coder_inv (e_low e) (e_high e)" "outputBufferPos bs < 8"
    and "encode s e bs = Some (e', bs')"
  shows "e_model e' = e_model e"
proof -
  obtain sl sh where slh: "symbol_low_high (e_model e) s = (sl, sh)"
    by (cases "symbol_low_high (e_model e) s")
  obtain rs l' h' where cs: "coder_step (unat (e_low e)) (unat (e_high e)) (unat sl) (unat sh) = (rs, l', h')"
    by (cases "coder_step (unat (e_low e)) (unat (e_high e)) (unat sl) (unat sh)")
  show ?thesis using encode_step[OF assms(1,2,3) slh cs] assms(4) by auto
qed

lemma encode_run_model:
  assumes "model_ok (e_model e)" "coder_inv (e_low e) (e_high e)" "outputBufferPos bs < 8"
  shows "\<exists>e' bs'. encode_run ss e bs = Some (e', bs')
        \<and> e_model e' = foldl update_state (e_model e) ss
        \<and> model_ok (e_model e') \<and> coder_inv (e_low e') (e_high e') \<and> outputBufferPos bs' < 8"
  using assms
proof (induction ss arbitrary: e bs)
  case Nil
  then show ?case by simp
next
  case (Cons s ss)
  obtain sl sh where slh: "symbol_low_high (e_model e) s = (sl, sh)"
    by (cases "symbol_low_high (e_model e) s")
  obtain rs l' h' where cs: "coder_step (unat (e_low e)) (unat (e_high e)) (unat sl) (unat sh) = (rs, l', h')"
    by (cases "coder_step (unat (e_low e)) (unat (e_high e)) (unat sl) (unat sh)")
  obtain e1 bs1 where e1: "encode s e bs = Some (e1, bs1)"
    "coder_inv (e_low e1) (e_high e1)" "e_model e1 = e_model e" "outputBufferPos bs1 < 8"
    using encode_step[OF Cons.prems slh cs] by blast
  define e2 where "e2 = e1\<lparr>e_model := update_state (e_model e1) s\<rparr>"
  have "model_ok (e_model e2)" "coder_inv (e_low e2) (e_high e2)"
    using Cons.prems(1) e1 by (simp_all add: e2_def update_state_ok)
  then obtain e' bs' where "encode_run ss e2 bs1 = Some (e', bs')"
    "e_model e' = foldl update_state (e_model e2) ss"
    "model_ok (e_model e')" "coder_inv (e_low e') (e_high e')" "outputBufferPos bs' < 8"
    using Cons.IH[of e2 bs1] e1(4) by blast
  then show ?case using e1(1,3) by (simp add: e2_def)
qed

lemma init_coder_inv: "coder_inv 0 MAX_CODE"
  by (simp add: coder_inv_unat)

lemma models_before_map:
  "models_before m ss = map (\<lambda>k. foldl update_state m (take k ss)) [0..<length ss]"
proof (induction ss arbitrary: m)
  case Nil
  then show ?case by simp
next
  case (Cons s ss)
  have "[0..<length (s # ss)] = 0 # map Suc [0..<length ss]"
    by (simp add: upt_conv_Cons map_Suc_upt del: upt_Suc)
  then show ?case by (simp add: Cons.IH comp_def)
qed

lemma models_before_stop:
  "map (\<lambda>k. foldl update_state m (take k ss)) [0..<length ss + 1]
     = models_before m (ss @ [t])"
proof -
  have "take k (ss @ [t]) = take k ss" if "k < length ss + 1" for k
    using that by simp
  then have "map (\<lambda>k. foldl update_state m (take k (ss @ [t]))) [0..<length ss + 1]
           = map (\<lambda>k. foldl update_state m (take k ss)) [0..<length ss + 1]"
    by (intro map_cong) auto
  then show ?thesis by (simp add: models_before_map del: upt_Suc)
qed

lemma encode_each_run:
  assumes "model_ok (e_model e)" "coder_inv (e_low e) (e_high e)" "outputBufferPos bs < 8"
  shows "encode_each (zip (models_before (e_model e) (ss @ [t])) (ss @ [t])) e bs
         = (case encode_run ss e bs of None \<Rightarrow> None | Some (e1, bs1) \<Rightarrow> encode t e1 bs1)"
  using assms
proof (induction ss arbitrary: e bs)
  case Nil
  have "e\<lparr>e_model := e_model e\<rparr> = e" by simp
  then show ?case by (simp split: option.splits)
next
  case (Cons s ss)
  obtain sl sh where slh: "symbol_low_high (e_model e) s = (sl, sh)"
    by (cases "symbol_low_high (e_model e) s")
  obtain rs l' h' where cs: "coder_step (unat (e_low e)) (unat (e_high e)) (unat sl) (unat sh) = (rs, l', h')"
    by (cases "coder_step (unat (e_low e)) (unat (e_high e)) (unat sl) (unat sh)")
  obtain e1 bs1 where e1: "encode s e bs = Some (e1, bs1)"
    "coder_inv (e_low e1) (e_high e1)" "e_model e1 = e_model e" "outputBufferPos bs1 < 8"
    using encode_step[OF Cons.prems slh cs] by blast
  define e2 where "e2 = e1\<lparr>e_model := update_state (e_model e1) s\<rparr>"
  have i2: "model_ok (e_model e2)" "coder_inv (e_low e2) (e_high e2)"
    using Cons.prems(1) e1 by (simp_all add: e2_def update_state_ok)
  have m2: "e_model e2 = update_state (e_model e) s" by (simp add: e2_def e1(3))
  obtain x xs where z: "zip (models_before (e_model e2) (ss @ [t])) (ss @ [t]) = (e_model e2, x) # xs"
    by (cases ss) auto
  have same: "encode_each ((e_model e2, x) # xs) e1 bs1 = encode_each ((e_model e2, x) # xs) e2 bs1"
    by (simp add: e2_def)
  have id: "e\<lparr>e_model := e_model e\<rparr> = e" by simp
  have "encode_each (zip (models_before (e_model e) ((s # ss) @ [t])) ((s # ss) @ [t])) e bs
        = encode_each (zip (models_before (e_model e2) (ss @ [t])) (ss @ [t])) e1 bs1"
    by (simp add: id e1(1) m2)
  also have "\<dots> = encode_each (zip (models_before (e_model e2) (ss @ [t])) (ss @ [t])) e2 bs1"
    unfolding z by (rule same)
  also have "\<dots> = (case encode_run ss e2 bs1 of None \<Rightarrow> None | Some (e1, bs1) \<Rightarrow> encode t e1 bs1)"
    by (rule Cons.IH[OF i2 e1(4)])
  finally show ?case by (simp add: e1(1) e2_def)
qed

text \<open>
  Claim C8, as amended. On the encode path \<open>update_state\<close> is invoked after every encoded
  payload symbol and not after the stop symbol. The loop always returns, and what it
  returns is the result of encoding the \<open>k\<close>-th payload symbol with the initial model
  updated on exactly the \<open>k\<close> payload symbols before it, and the stop symbol with the model
  updated on all payload symbols; this last model is the model of the encoder after the
  stop symbol.
\<close>

theorem encoder_final_model:
  assumes "erf_ok erf"
  shows "let syms = symbols_of payload;
             before = (\<lambda>k. foldl update_state (Model_init erf) (take k syms))
         in \<exists>e bs. encode_symbols erf payload out = Some (e, bs)
              \<and> encode_each (zip (map before [0..<length syms + 1]) (syms @ [of_nat (NUM_SYMBOLS - 1)]))
                            (ArithmeticEncoder_init erf) (OBitStream_init out) = Some (e, bs)
              \<and> e_model e = foldl update_state (Model_init erf) syms"
proof -
  define e0 where "e0 = ArithmeticEncoder_init erf"
  define bs0 where "bs0 = OBitStream_init out"
  define syms where "syms = symbols_of payload"
  have m0: "e_model e0 = Model_init erf" by (simp add: e0_def ArithmeticEncoder_init_def)
  have i: "model_ok (e_model e0)" "coder_inv (e_low e0) (e_high e0)" "outputBufferPos bs0 < 8"
    using Model_init_ok[OF assms] init_coder_inv
    by (simp_all add: e0_def bs0_def ArithmeticEncoder_init_def OBitStream_init_def)
  obtain e1 bs1 where r: "encode_run syms e0 bs0 = Some (e1, bs1)"
    "e_model e1 = foldl update_state (e_model e0) syms"
    "model_ok (e_model e1)" "coder_inv (e_low e1) (e_high e1)" "outputBufferPos bs1 < 8"
    using encode_run_model[OF i] by blast
  obtain e2 bs2 where s: "encode_run [of_nat (NUM_SYMBOLS - 1)] e1 bs1 = Some (e2, bs2)"
    using encode_run_model[OF r(3,4,5), of "[of_nat (NUM_SYMBOLS - 1)]"] by blast
  then obtain e3 where t: "encode (of_nat (NUM_SYMBOLS - 1)) e1 bs1 = Some (e3, bs2)"
    by (auto split: option.splits)
  have m3: "e_model e3 = e_model e1" using encode_model[OF r(3,4,5) t] .
  have a: "encode_symbols erf payload out = Some (e3, bs2)"
    using r(1) t
    by (simp add: encode_symbols_def encode_samples_run e0_def[symmetric] bs0_def[symmetric] syms_def[symmetric])
  have b: "encode_each (zip (map (\<lambda>k. foldl update_state (Model_init erf) (take k syms)) [0..<length syms + 1])
                            (syms @ [of_nat (NUM_SYMBOLS - 1)])) e0 bs0 = Some (e3, bs2)"
  proof -
    have "encode_each (zip (models_before (e_model e0) (syms @ [of_nat (NUM_SYMBOLS - 1)]))
                           (syms @ [of_nat (NUM_SYMBOLS - 1)])) e0 bs0 = Some (e3, bs2)"
      using encode_each_run[OF i, of syms "of_nat (NUM_SYMBOLS - 1)"] r(1) t by simp
    then show ?thesis by (simp only: models_before_stop[of "Model_init erf" syms "of_nat (NUM_SYMBOLS - 1)"] m0)
  qed
  show ?thesis
    unfolding Let_def syms_def[symmetric] e0_def[symmetric] bs0_def[symmetric]
    using a b m3 r(2) m0 by simp
qed

lemma symbols_of_zero: "symbols_of [0, 0] = [512]"
  by (simp add: neuralink_16bit_to_10bit_def)

lemma alpha_term_ge: "40 \<le> fmul (fmul alpha 8) 8"
proof -
  define a where "a = fmul alpha 8"
  have "of_int 5 \<le> alpha * 8" using alpha_bounds(1) by simp
  then have "5 \<le> a" unfolding a_def fmul_def using rnd_ge_int[of 5 "alpha * 8"] by simp
  then have "of_int 40 \<le> a * 8" by simp
  then have "40 \<le> fmul a 8" unfolding fmul_def using rnd_ge_int[of 40 "a * 8"] by simp
  then show ?thesis by (simp add: a_def)
qed

lemma init_update_512:
  "outlier_counter (update_state (Model_init erf) 512) = 0"
  "10 \<le> stdev (update_state (Model_init erf) 512)"
proof -
  have d: "fsub (real (unat (512 :: 16 word))) 511 = 1"
    using fsub_ints[of 512 511] by simp
  have "fmul outlier_level 8 \<ge> 1"
    unfolding fmul_def using outlier_level_ge rnd_ge_int[of 1 "outlier_level * 8"] by simp
  then show c: "outlier_counter (update_state (Model_init erf) 512) = 0"
    using d by (simp add: update_state_def Let_def Model_init_def del: of_nat_unat)
  have b: "0 \<le> fmul (fmul beta 1) 1"
    using beta_bounds(1) by (intro fmul_nonneg) auto
  define A where "A = fdiv ltv (fsub (fsub 1 alpha) beta) + fmul (fmul alpha 8) 8"
  have "of_int 114 \<le> A" using omega_bounds(1) alpha_term_ge by (simp add: A_def)
  then have "114 \<le> rnd A" using rnd_ge_int[of 114 A] by simp
  then have "of_int 100 \<le> rnd A + fmul (fmul beta 1) 1" using b by simp
  then have "100 \<le> rnd (rnd A + fmul (fmul beta 1) 1)"
    using rnd_ge_int[of 100 "rnd A + fmul (fmul beta 1) 1"] by simp
  then have "of_int (10 * 10) \<le> rnd (rnd A + fmul (fmul beta 1) 1)" by simp
  then have "of_int 10 \<le> fsqrt (rnd (rnd A + fmul (fmul beta 1) 1))"
    by (intro fsqrt_ge_int) simp_all
  then have "10 \<le> fsqrt (fadd (fadd (fdiv ltv (fsub (fsub 1 alpha) beta)) (fmul (fmul alpha 8) 8))
                               (fmul (fmul beta 1) 1))"
    by (simp add: fadd_def A_def)
  moreover have "stdev (update_state (Model_init erf) 512)
     = fsqrt (fadd (fadd (omega (Model_init erf)) (fmul (fmul alpha (stdev (Model_init erf))) (stdev (Model_init erf))))
                   (fmul (fmul beta (fsub (real (unat (512 :: 16 word))) (mean (Model_init erf))))
                         (fsub (real (unat (512 :: 16 word))) (mean (Model_init erf)))))"
    by (rule update_state_stdev[OF c])
  ultimately show "10 \<le> stdev (update_state (Model_init erf) 512)"
    using d by (simp add: Model_init_def del: of_nat_unat)
qed

theorem encoder_final_model_witness:
  "encode_symbols erf_tanh [0, 0] []
     = encode_each [(Model_init erf_tanh, 512), (update_state (Model_init erf_tanh) 512, 1024)]
         (ArithmeticEncoder_init erf_tanh) (OBitStream_init [])
   \<and> map_option (\<lambda>(e, bs). e_model e) (encode_symbols erf_tanh [0, 0] [])
       = Some (update_state (Model_init erf_tanh) 512)
   \<and> stdev (Model_init erf_tanh) = 8
   \<and> 10 \<le> stdev (update_state (Model_init erf_tanh) 512)"
proof -
  have u: "[0..<length [512 :: 16 word] + 1] = [0, 1]" by (simp add: upt_conv_Cons)
  have "\<exists>e bs. encode_symbols erf_tanh [0, 0] [] = Some (e, bs)
     \<and> encode_each [(Model_init erf_tanh, 512), (update_state (Model_init erf_tanh) 512, 1024)]
         (ArithmeticEncoder_init erf_tanh) (OBitStream_init []) = Some (e, bs)
     \<and> e_model e = update_state (Model_init erf_tanh) 512"
    using encoder_final_model[OF erf_tanh_ok, of "[0, 0]" "[]"]
    unfolding Let_def symbols_of_zero u by (simp add: NUM_SYMBOLS_def)
  then show ?thesis
    using init_update_512(2)[of erf_tanh] by (auto simp: Model_init_def)
qed

text \<open>
  Claim C8 as stated fails: with an empty payload the encoder's model after the stop
  symbol is the initial one, whose outlier counter is 0, while an update on the stop
  symbol 1024 counts an outlier.
\<close>

theorem encoder_final_model_counterexample:
  "map_option (\<lambda>(e, bs). e_model e) (encode_symbols erf_tanh [] []) = Some (Model_init erf_tanh)
   \<and> Model_init erf_tanh \<noteq> foldl update_state (Model_init erf_tanh) (symbols_of [] @ [1024])"
proof -
  have 1: "map_option (\<lambda>(e, bs). e_model e) (encode_symbols erf_tanh [] []) = Some (Model_init erf_tanh)"
    using encode_run_model[of "ArithmeticEncoder_init erf_tanh" "OBitStream_init []" "[of_nat (NUM_SYMBOLS - 1)]"]
      Model_init_ok[OF erf_tanh_ok] init_coder_inv
      encode_model[of "ArithmeticEncoder_init erf_tanh" "OBitStream_init []" "of_nat (NUM_SYMBOLS - 1)"]
    by (auto simp: encode_symbols_def encode_samples_run ArithmeticEncoder_init_def OBitStream_init_def
             split: option.splits)
  have "fsub (real (unat (1024 :: 16 word))) 511 = 513"
    using fsub_ints[of 1024 511] by simp
  then have "outlier_counter (update_state (Model_init erf_tanh) 1024) = 1"
    using init_threshold(1) by (simp add: update_state_def Let_def Model_init_def del: of_nat_unat)
  moreover have "outlier_counter (Model_init erf_tanh) = 0" by (simp add: Model_init_def)
  ultimately have 2: "Model_init erf_tanh \<noteq> update_state (Model_init erf_tanh) 1024"
    by (metis zero_neq_one)
  show ?thesis using 1 2 by simp
qed

section \<open>Bit source\<close>




section \<open>The decoder's loop\<close>










lemma read_short_input:
  "read_wav_header short_input = (short_input @ replicate 8 0, [])"
  by (simp add: read_wav_header_def short_input_def)

lemma check_short_input:
  "neuralink_check_wav_header (short_input @ replicate 8 0) = Inr ()"
proof -
  have n: "(replicate 22 0 @ [1, 0] @ replicate 10 0 @ [16, 0] @ replicate 8 0) ! k
           = (if k = 22 then 1 else if k = 34 then 16 else (0 :: byte))" if "k < 44" for k
  proof -
    have "(replicate 22 0 @ [1, 0] @ replicate 10 0 @ [16, 0] @ replicate 8 0)
          = (replicate 22 0 @ [1] @ replicate 11 0 @ [16] @ replicate 9 (0 :: byte))"
      by (simp add: numeral_eq_Suc replicate_app_Cons_same)
    then show ?thesis using that
      by (auto simp: nth_append nth_Cons' )
  qed
  have w: "word_cat (0 :: byte) (1 :: byte) = (1 :: 16 word)" "word_cat (0 :: byte) (16 :: byte) = (16 :: 16 word)"
    by (simp_all add: word_cat_eq)
  show ?thesis
    using n[of 22] n[of 23] n[of 34] n[of 35] w
    by (simp add: neuralink_check_wav_header_def u16_at_def short_input_def Let_def)
qed

text \<open>
  Claim C7 fails on the code for a header shorter than 44 bytes. \<open>read_wav_header\<close>
  always returns 44 bytes, so the size check of \<open>neuralink_check_wav_header\<close> never
  fires: for the 36 bytes of \<open>short_input\<close> the check passes, and neither \<open>encodeStream\<close>
  nor \<open>decodeStream\<close> reports an error, whatever the library's \<open>erf\<close> and the content of
  the uninitialised variables.
\<close>

theorem short_header_accepted:
  "length short_input = 36
   \<and> neuralink_check_wav_header (fst (read_wav_header short_input)) = Inr ()
   \<and> encodeStream erf short_input \<noteq> Some (Inl Invalid_WAV_header_size)
   \<and> encodeStream erf short_input \<noteq> Some (Inl Unsupported_WAV_format)
   \<and> decodeStream erf ub short_input \<noteq> Some (Inl Invalid_WAV_header_size)
   \<and> decodeStream erf ub short_input \<noteq> Some (Inl Unsupported_WAV_format)"
proof -
  have l: "length (short_input @ replicate 8 0) = 44" by (simp add: short_input_def)
  have w: "write_wav_header [] (short_input @ replicate 8 0) = Inr (short_input @ replicate 8 0)"
    using l by (simp add: write_wav_header_def)
  have e: "encodeStream erf short_input \<noteq> Some (Inl err)" for err
    by (simp add: encodeStream_def read_short_input check_short_input w split: option.splits prod.splits)
  have d: "decodeStream erf ub short_input \<noteq> Some (Inl err)" for err
    by (simp add: decodeStream_def read_short_input check_short_input w split: option.splits prod.splits)
  show ?thesis
    using e d by (simp add: read_short_input check_short_input) (simp add: short_input_def)
qed

theorem short_header_accepted_witness:
  "neuralink_check_wav_header (fst (read_wav_header short_input)) = Inr ()
   \<and> encodeStream erf_tanh short_input \<noteq> Some (Inl Invalid_WAV_header_size)
   \<and> encodeStream erf_tanh short_input \<noteq> Some (Inl Unsupported_WAV_format)
   \<and> decodeStream erf_tanh (\<lambda>k. False) short_input \<noteq> Some (Inl Invalid_WAV_header_size)
   \<and> decodeStream erf_tanh (\<lambda>k. False) short_input \<noteq> Some (Inl Unsupported_WAV_format)"
  using short_header_accepted[of erf_tanh "\<lambda>k. False"] by simp

section \<open>Locating the code value\<close>






lemma narrow_scaled:
  assumes "l \<le> v" "v \<le> h" "narrow l h a b = (l1, h1)" "l1 \<le> v" "v \<le> h1"
    and "32767 \<le> (h - l + 1) * b"
  shows "a \<le> scaled v l h" "scaled v l h < b"
proof -
  define r d where "r = h - l + 1" and "d = v - l + 1"
  have dr: "0 < r" "0 < d" "v = l + d - 1" using assms(1,2) by (simp_all add: r_def d_def)
  have f: "scaled v l h = (d * 32767 - 1) div r" by (simp add: scaled_def r_def d_def)
  have l1: "l1 = l + r * a div 32767" and h1: "h1 = l + r * b div 32767 - 1"
    using assms(3) by (simp_all add: narrow_def r_def)
  have "r * a div 32767 < d" using assms(4) dr(2,3) by (simp add: l1)
  then have "r * a < d * 32767" by (simp add: div_less_iff_less_mult)
  then have "a * r \<le> d * 32767 - 1" by (simp add: mult.commute)
  then show "a \<le> scaled v l h"
    using dr(1) unfolding f by (simp add: less_eq_div_iff_mult_less_eq)
  have "1 \<le> r * b div 32767"
    using assms(6) by (simp add: r_def less_eq_div_iff_mult_less_eq)
  then have "d \<le> r * b div 32767" using assms(5) dr(2,3) by (simp add: h1)
  then have "d * 32767 \<le> r * b" by (simp add: less_eq_div_iff_mult_less_eq)
  then have "d * 32767 - 1 < b * r" using dr(2) by (simp add: mult.commute)
  then show "scaled v l h < b"
    using dr(1) unfolding f by (simp add: div_less_iff_less_mult)
qed

section \<open>Looking a frequency up\<close>








lemma mod_1025_cancel:
  fixes x sh :: int
  assumes "0 \<le> x" "x \<le> 1024"
  shows "((x + 1025 + sh) mod 1025 + 1025 - sh) mod 1025 = x"
    and "((x + 1025 - sh) mod 1025 + 1025 + sh) mod 1025 = x"
proof -
  have x: "(x + 2 * 1025) mod 1025 = x"
  proof -
    have "(x + 2 * 1025) mod 1025 = x mod 1025" by (rule mod_mult_self1)
    also have "\<dots> = x" using assms by (intro mod_pos_pos_trivial) auto
    finally show ?thesis .
  qed
  have "((x + 1025 + sh) mod 1025 + 1025 - sh) mod 1025 = ((x + 1025 + sh) mod 1025 + (1025 - sh)) mod 1025"
    by (simp add: algebra_simps)
  also have "\<dots> = ((x + 1025 + sh) + (1025 - sh)) mod 1025" by (simp only: mod_add_left_eq)
  also have "(x + 1025 + sh) + (1025 - sh) = x + 2 * 1025" by simp
  finally show "((x + 1025 + sh) mod 1025 + 1025 - sh) mod 1025 = x" by (simp only: x)
  have "((x + 1025 - sh) mod 1025 + 1025 + sh) mod 1025 = ((x + 1025 - sh) mod 1025 + (1025 + sh)) mod 1025"
    by (simp add: algebra_simps)
  also have "\<dots> = ((x + 1025 - sh) + (1025 + sh)) mod 1025" by (simp only: mod_add_left_eq)
  also have "(x + 1025 - sh) + (1025 + sh) = x + 2 * 1025" by simp
  finally show "((x + 1025 - sh) mod 1025 + 1025 + sh) mod 1025 = x" by (simp only: x)
qed




lemma loc_symbol_symbol_loc:
  assumes "unat s \<le> 1024"
  shows "loc_symbol m (symbol_loc m s) = s"
proof -
  have "int (unat s) \<le> 1024" using assms by linarith
  then have u: "0 \<le> uint s" "uint s \<le> 1024" by (simp_all only: uint_nat uint_ge_0) 
  have "0 \<le> (uint s + 1025 + sint (active_symbol_shift m)) mod 1025" by simp
  then have "int (symbol_loc m s) = (uint s + 1025 + sint (active_symbol_shift m)) mod 1025"
    by (simp only: symbol_loc_def int_nat_eq if_True)
  then have "loc_symbol m (symbol_loc m s) = word_of_int (uint s)"
    unfolding loc_symbol_def by (simp only: mod_1025_cancel(1)[OF u])
  then show ?thesis by simp
qed




section \<open>One call of decode\<close>


section \<open>The decoder's runs\<close>






end
